theory Spec2Isabelle
  imports
    Main
    "HOL-Library.Char_ord"
    "HOL-Library.List_Lexorder"
    "HOL-Library.Sublist"
    "HOL-Library.AList"
    "HOL-Library.Multiset"
begin

section \<open>The queue monitor of the Hydra queue runner\<close>

text \<open>
  This theory embeds \<^verbatim>\<open>src/hydra-queue-runner/queue-monitor.cc\<close>: the scan of the
  \<^verbatim>\<open>Builds\<close> table, \<^verbatim>\<open>State::createStep\<close>, the closure \<^verbatim>\<open>createBuild\<close> of
  \<^verbatim>\<open>State::getQueuedBuilds\<close> and the loop that drains the working set.

  Conventions of the embedding.
  \<^item> A \<^verbatim>\<open>Step\<close> object is named by an object identity (a natural number, never reused).
    The heap maps the identities of the objects that are alive to their contents; a
    \<^verbatim>\<open>Step::ptr\<close> and a \<^verbatim>\<open>Step::wptr\<close> are both an identity, and \<^verbatim>\<open>wptr.lock()\<close>
    succeeds exactly when the heap still holds the object.
  \<^item> A \<^verbatim>\<open>Build\<close> object is a record passed by value; a \<^verbatim>\<open>Build::wptr\<close> kept in a
    Step is the id of the build (the scan creates one Build per row of \<^verbatim>\<open>Builds\<close>).
  \<^item> The store, the cached-failure oracle, the machines, the clock, the configuration
    and the allocator's addresses are the fields of an environment record.
  \<^item> The database is the \<^verbatim>\<open>Builds\<close> table (a list of rows) together with the list of
    the transactions committed so far, each a list of statements.
  \<^item> An exception, a failed \<^verbatim>\<open>assert\<close> and an exhausted recursion budget are values of
    the type \<open>error\<close>; a function that can fail returns \<open>error + 'a\<close>.
  \<^item> A \<^verbatim>\<open>std::set\<close> is a duplicate-free list, a \<^verbatim>\<open>std::vector\<close> a list.
\<close>

subsection \<open>Data\<close>

type_synonym Path = string
type_synonym BuildID = nat
type_synonym StepRef = nat

datatype BuildStatus = bsSuccess | bsFailed | bsDepFailed | bsAborted | bsUnsupported

datatype BuildStepStatus = bssSuccess | bssFailed | bssUnsupported

text \<open>The part of a Nix derivation that the queue monitor reads. \<open>outputs\<close> holds the
  output paths and \<open>inputDrvs\<close> the keys of the map of input derivations, both in the
  iteration order of the \<^verbatim>\<open>std::map\<close> they come from.\<close>

record Derivation =
  outputs :: "Path list"
  inputDrvs :: "Path list"
  env :: "string \<rightharpoonup> string"
  platform :: string

definition emptyDerivation :: Derivation where
  "emptyDerivation = \<lparr>outputs = [], inputDrvs = [], env = Map.empty, platform = []\<rparr>"

text \<open>A \<^verbatim>\<open>Step\<close>: \<open>deps\<close> is the \<^verbatim>\<open>std::set<Step::ptr>\<close> (strong references),
  \<open>rdeps\<close> and \<open>sbuilds\<close> are the vectors of weak references to Steps and to Builds.\<close>

record Step =
  drvPath :: Path
  drv :: Derivation
  requiredSystemFeatures :: "string list"
  preferLocalBuild :: bool
  deps :: "StepRef list"
  rdeps :: "StepRef list"
  sbuilds :: "BuildID list"
  created :: bool

text \<open>\<^verbatim>\<open>std::make_shared<Step>()\<close> followed by \<^verbatim>\<open>step->drvPath = drvPath\<close>.\<close>

definition newStep :: "Path \<Rightarrow> Step" where
  "newStep p = \<lparr>drvPath = p, drv = emptyDerivation, requiredSystemFeatures = [],
     preferLocalBuild = False, deps = [], rdeps = [], sbuilds = [], created = False\<rparr>"

record Build =
  bid :: BuildID
  bdrvPath :: Path
  fullJobName :: string
  maxSilentTime :: int
  buildTimeout :: int
  finishedInDB :: bool
  toplevel :: "StepRef option"

text \<open>A row of the table \<^verbatim>\<open>Builds\<close>, with the columns this file reads or writes.\<close>

record BuildsRow =
  row_id :: BuildID
  row_project :: string
  row_jobset :: string
  row_job :: string
  row_drvPath :: Path
  row_maxsilent :: int
  row_timeout :: int
  row_finished :: int
  row_busy :: int
  row_buildStatus :: "BuildStatus option"
  row_startTime :: "int option"
  row_stopTime :: "int option"
  row_errorMsg :: "string option"
  row_isCachedBuild :: "int option"

text \<open>The result of \<^verbatim>\<open>getBuildOutput\<close>, which this file only hands on.\<close>

datatype BuildOutput = BuildOutput nat

datatype param = PId BuildID | PStatus BuildStatus | PTime int | PStr string | PInt int

text \<open>A statement run inside a transaction: a parameterised query of this file with its
  text and parameters, or a call of one of the two helpers that write through the
  transaction handed to them.\<close>

datatype stmt =
    Exec string "param list"
  | CreateBuildStep int BuildID StepRef string BuildStepStatus
  | MarkSucceededBuild BuildID BuildOutput bool int int

text \<open>\<open>ReadError\<close> is the \<^verbatim>\<open>Error\<close> thrown by \<^verbatim>\<open>readDerivation\<close>, \<open>WhileLoading\<close> the same
  exception with the prefix added by the drain loop, \<open>AssertionFailed\<close> an \<^verbatim>\<open>assert\<close>
  that does not hold. \<open>OutOfFuel\<close> says that the budget given to a recursion or a
  \<^verbatim>\<open>while (true)\<close> loop was too small, and \<open>DanglingPointer\<close> that a strong pointer was
  dereferenced whose object the heap does not hold.\<close>

datatype error = OutOfFuel | DanglingPointer | AssertionFailed | ReadError Path
  | WhileLoading BuildID error

record env =
  isValidPath :: "Path \<Rightarrow> bool"
  readDerivation :: "Path \<Rightarrow> Derivation option"
  getBuildOutput :: "Derivation \<Rightarrow> BuildOutput"
  checkCachedFailure :: "Step \<Rightarrow> bool"
  machines :: "(Step \<Rightarrow> bool) list"
  localPlatforms :: "string list"
  buildOne :: BuildID
  now :: int
  addrOf :: "StepRef \<Rightarrow> nat"

text \<open>The state: the members of \<^verbatim>\<open>State\<close> that this file touches (\<open>steps\<close>, \<open>builds\<close>,
  \<open>runnable\<close>, the counters), the heap of Steps, the database, the log of the calls of
  \<^verbatim>\<open>readDerivation\<close> and of the builds loaded, and the local variables of
  \<^verbatim>\<open>queueMonitorLoop\<close>, \<^verbatim>\<open>getQueuedBuilds\<close> and \<^verbatim>\<open>createBuild\<close> that are passed on by
  reference (\<open>lastBuildId\<close>, \<open>newBuilds\<close>, \<open>newRunnable\<close>, \<open>nrAdded\<close>, \<open>newSteps\<close>,
  \<open>finishedDrvs\<close>).\<close>

record state =
  heap :: "StepRef \<rightharpoonup> Step"
  nextId :: StepRef
  steps :: "Path \<rightharpoonup> StepRef"
  builds :: "(BuildID \<times> Build) list"
  runnable :: "StepRef list"
  nrBuildsDone :: nat
  nrBuildsRead :: nat
  dbBuilds :: "BuildsRow list"
  txns :: "stmt list list"
  drvReads :: "Path list"
  loaded :: "BuildID list"
  lastBuildId :: BuildID
  newBuilds :: "(Path \<times> Build) list"
  newRunnable :: "StepRef list"
  nrAdded :: nat
  newSteps :: "StepRef list"
  finishedDrvs :: "Path list"

subsection \<open>The scan of the queue\<close>

text \<open>\<^verbatim>\<open>select ... from Builds where id > $1 and finished = 0 order by id\<close>\<close>

definition queuedRows :: "BuildsRow list \<Rightarrow> BuildID \<Rightarrow> BuildsRow list" where
  "queuedRows tbl h = sort_key row_id (filter (\<lambda>r. h < row_id r \<and> row_finished r = 0) tbl)"

text \<open>\<^verbatim>\<open>std::multimap::emplace\<close>: the new element goes after the elements whose key is
  not greater than its own.\<close>

fun emplace :: "Path \<times> Build \<Rightarrow> (Path \<times> Build) list \<Rightarrow> (Path \<times> Build) list" where
  "emplace x [] = [x]"
| "emplace x (y # ys) = (if fst x < fst y then x # y # ys else y # emplace x ys)"

definition buildOfRow :: "BuildsRow \<Rightarrow> Build" where
  "buildOfRow row = \<lparr>bid = row_id row, bdrvPath = row_drvPath row,
     fullJobName = row_project row @ '':'' @ row_jobset row @ '':'' @ row_job row,
     maxSilentTime = row_maxsilent row, buildTimeout = row_timeout row,
     finishedInDB = False, toplevel = None\<rparr>"

text \<open>The body of the loop over the rows of the result.\<close>

definition scanRow :: "env \<Rightarrow> BuildsRow \<Rightarrow> state \<Rightarrow> state" where
  "scanRow E row st =
     (let i = row_id row in
      if buildOne E \<noteq> 0 \<and> i \<noteq> buildOne E then st
      else
        let st1 = (if lastBuildId st < i then st\<lparr>lastBuildId := i\<rparr> else st) in
        if map_of (builds st1) i \<noteq> None then st1
        else st1\<lparr>newBuilds := emplace (row_drvPath row, buildOfRow row) (newBuilds st1)\<rparr>)"

text \<open>The first block of \<^verbatim>\<open>getQueuedBuilds\<close>: the working set starts empty, the query
  runs with the high-water mark, and the rows are visited in order.\<close>

definition scanQueue :: "env \<Rightarrow> state \<Rightarrow> state" where
  "scanQueue E st =
     fold (scanRow E) (queuedRows (dbBuilds st) (lastBuildId st)) (st\<lparr>newBuilds := []\<rparr>)"

text \<open>The ids of the rows that pass the single-build pin.\<close>

definition pinned :: "env \<Rightarrow> BuildsRow list \<Rightarrow> BuildID list" where
  "pinned E rows = filter (\<lambda>i. buildOne E = 0 \<or> i = buildOne E) (map row_id rows)"


subsection \<open>The database statements\<close>

definition sqlAbort :: string where
  "sqlAbort = ''update Builds set finished = 1, busy = 0, buildStatus = $2, startTime = $3, stopTime = $3, errorMsg = $4 where id = $1 and finished = 0''"

definition sqlFail :: string where
  "sqlFail = ''update Builds set finished = 1, busy = 0, buildStatus = $2, startTime = $3, stopTime = $3, isCachedBuild = $4 where id = $1 and finished = 0''"

definition gcMessage :: string where
  "gcMessage = ''derivation was garbage-collected prior to build''"

text \<open>What the two updates do to the table: the rows with the given id and
  \<^verbatim>\<open>finished = 0\<close> get the new values, every other row stays as it is.\<close>

definition updateAborted ::
    "BuildID \<Rightarrow> BuildStatus \<Rightarrow> int \<Rightarrow> string \<Rightarrow> BuildsRow list \<Rightarrow> BuildsRow list" where
  "updateAborted i s t m tbl =
     map (\<lambda>r. if row_id r = i \<and> row_finished r = 0
               then r\<lparr>row_finished := 1, row_busy := 0, row_buildStatus := Some s,
                      row_startTime := Some t,
                      row_stopTime := Some t, row_errorMsg := Some m\<rparr>
               else r) tbl"

definition updateFailed ::
    "BuildID \<Rightarrow> BuildStatus \<Rightarrow> int \<Rightarrow> int \<Rightarrow> BuildsRow list \<Rightarrow> BuildsRow list" where
  "updateFailed i s t c tbl =
     map (\<lambda>r. if row_id r = i \<and> row_finished r = 0
               then r\<lparr>row_finished := 1, row_busy := 0, row_buildStatus := Some s,
                      row_startTime := Some t,
                      row_stopTime := Some t, row_isCachedBuild := Some c\<rparr>
               else r) tbl"

text \<open>Modelled from the spec: \<^verbatim>\<open>markSucceededBuild\<close> is defined outside this file. The
  spec says that it marks the build succeeded, with \<^verbatim>\<open>isCachedBuild\<close> and with the start
  and stop times it is given, under the guard \<^verbatim>\<open>finished = 0\<close>.\<close>

definition updateSucceeded :: "BuildID \<Rightarrow> bool \<Rightarrow> int \<Rightarrow> int \<Rightarrow> BuildsRow list \<Rightarrow> BuildsRow list" where
  "updateSucceeded i c t1 t2 tbl =
     map (\<lambda>r. if row_id r = i \<and> row_finished r = 0
               then r\<lparr>row_finished := 1, row_buildStatus := Some bsSuccess,
                      row_startTime := Some t1,
                      row_stopTime := Some t2, row_isCachedBuild := Some (if c then 1 else 0)\<rparr>
               else r) tbl"

text \<open>\<^verbatim>\<open>txn.commit()\<close>: the statements of the transaction join the log.\<close>

definition commit :: "stmt list \<Rightarrow> state \<Rightarrow> state" where
  "commit ss st = st\<lparr>txns := txns st @ [ss]\<rparr>"

subsection \<open>Steps on the heap\<close>

text \<open>An access through a pointer to a Step that is alive.\<close>

definition updStep :: "StepRef \<Rightarrow> (Step \<Rightarrow> Step) \<Rightarrow> state \<Rightarrow> state" where
  "updStep a f st = st\<lparr>heap := (heap st)(a := map_option f (heap st a))\<rparr>"

text \<open>The strong references between the Steps that are alive, as edges.\<close>

definition edges :: "state \<Rightarrow> (StepRef \<times> StepRef) list" where
  "edges st =
     concat (map (\<lambda>a. case heap st a of None \<Rightarrow> [] | Some s \<Rightarrow> map (Pair a) (deps s))
       [0 ..< nextId st])"

definition keeps :: "(StepRef \<times> StepRef) list \<Rightarrow> StepRef list \<Rightarrow> StepRef \<Rightarrow> bool" where
  "keeps es rs x = (x \<in> set rs \<or> x \<in> (set es)\<^sup>+ `` set rs)"

text \<open>The Steps that a \<^verbatim>\<open>Build\<close> of the builds map owns directly.\<close>

definition toplevels :: "(BuildID \<times> Build) list \<Rightarrow> StepRef list" where
  "toplevels bs = List.map_filter (\<lambda>(i, b). toplevel b) bs"

text \<open>A scope ends and the strong pointers it held to the Steps \<open>cands\<close> go away. Such a
  Step is destroyed unless another strong reference still leads to it: from one of the
  \<open>roots\<close>, or from a Step that is alive and was not held by the scope.\<close>

definition others :: "StepRef list \<Rightarrow> state \<Rightarrow> StepRef list" where
  "others cands st = filter (\<lambda>a. heap st a \<noteq> None \<and> a \<notin> set cands) [0 ..< nextId st]"

definition release :: "StepRef list \<Rightarrow> StepRef list \<Rightarrow> state \<Rightarrow> state" where
  "release cands roots st =
     st\<lparr>heap := (\<lambda>a. if a \<in> set cands \<and> \<not> keeps (edges st) (roots @ others cands st) a
                     then None else heap st a)\<rparr>"

text \<open>The iteration order of a \<^verbatim>\<open>std::set<Step::ptr>\<close>: by address.\<close>

definition iterSteps :: "env \<Rightarrow> StepRef list \<Rightarrow> StepRef list" where
  "iterSteps E xs = sort_key (addrOf E) xs"

subsection \<open>createStep\<close>

text \<open>\<^verbatim>\<open>tokenizeString<std::set<std::string>>\<close> with the separators blank, tab, newline
  and carriage return.\<close>

definition isSeparator :: "char \<Rightarrow> bool" where
  "isSeparator c = (c = CHR '' '' \<or> c = CHR 0x09 \<or> c = CHR 0x0A \<or> c = CHR 0x0D)"

fun tokens :: "string \<Rightarrow> string \<Rightarrow> string list" where
  "tokens cur [] = (if cur = [] then [] else [cur])"
| "tokens cur (c # cs) =
     (if isSeparator c then (if cur = [] then tokens [] cs else cur # tokens [] cs)
      else tokens (cur @ [c]) cs)"

definition tokenizeString :: "string \<Rightarrow> string list" where
  "tokenizeString s = sort (remdups (tokens [] s))"

text \<open>Lines 282 to 295: the entry of \<open>steps\<close> for the path is looked up and locked; a
  stale entry is erased; without a Step that is alive, a new one is made. The result is
  the pointer, the contents of the Step, \<open>isNew\<close> and the state.\<close>

definition lookupStep :: "Path \<Rightarrow> state \<Rightarrow> StepRef \<times> Step \<times> bool \<times> state" where
  "lookupStep p st =
     (case steps st p of
        None \<Rightarrow>
          (nextId st, newStep p, True,
           st\<lparr>heap := (heap st)(nextId st \<mapsto> newStep p), nextId := Suc (nextId st)\<rparr>)
      | Some w \<Rightarrow>
          (case heap st w of
             Some s \<Rightarrow> (w, s, False, st)
           | None \<Rightarrow>
               (nextId st, newStep p, True,
                st\<lparr>heap := (heap st)(nextId st \<mapsto> newStep p), nextId := Suc (nextId st),
                   steps := (steps st)(p := None)\<rparr>)))"

text \<open>Lines 301 to 305: the back-references are appended.\<close>

definition linkBack :: "BuildID option \<Rightarrow> StepRef option \<Rightarrow> Step \<Rightarrow> Step" where
  "linkBack referringBuild referringStep s =
     (let s1 = (case referringBuild of None \<Rightarrow> s | Some b \<Rightarrow> s\<lparr>sbuilds := sbuilds s @ [b]\<rparr>)
      in case referringStep of None \<Rightarrow> s1 | Some r \<Rightarrow> s1\<lparr>rdeps := rdeps s1 @ [r]\<rparr>)"

text \<open>The whole critical section, lines 277 to 308: after the lookup, the assertion, the
  back-references and the entry of \<open>steps\<close>.\<close>

definition internStep ::
    "Path \<Rightarrow> BuildID option \<Rightarrow> StepRef option \<Rightarrow> state \<Rightarrow> error + (StepRef \<times> bool \<times> state)" where
  "internStep p referringBuild referringStep st =
     (case lookupStep p st of
        (step, s, isNew, st1) \<Rightarrow>
          if created s = isNew then Inl AssertionFailed
          else
            Inr (step, isNew,
                 st1\<lparr>heap := (heap st1)(step \<mapsto> linkBack referringBuild referringStep s),
                     steps := (steps st1)(p \<mapsto> step)\<rparr>))"

text \<open>\<^verbatim>\<open>readDerivation(drvPath)\<close>, which throws when the derivation cannot be read.\<close>

definition readDrv :: "env \<Rightarrow> Path \<Rightarrow> state \<Rightarrow> error + (Derivation \<times> state)" where
  "readDrv E p st =
     (case readDerivation E p of
        None \<Rightarrow> Inl (ReadError p)
      | Some d \<Rightarrow> Inr (d, st\<lparr>drvReads := drvReads st @ [p]\<rparr>))"

text \<open>Lines 318 to 328: the derivation, the required system features and
  \<open>preferLocalBuild\<close> are stored in the Step.\<close>

definition initStep :: "env \<Rightarrow> Derivation \<Rightarrow> Step \<Rightarrow> Step" where
  "initStep E d s =
     s\<lparr>drv := d,
       requiredSystemFeatures :=
         (case env d ''requiredSystemFeatures'' of
            None \<Rightarrow> requiredSystemFeatures s
          | Some v \<Rightarrow> tokenizeString v),
       preferLocalBuild :=
         (env d ''preferLocalBuild'' = Some ''1'' \<and> platform d \<in> set (localPlatforms E))\<rparr>"

text \<open>Lines 331 to 337.\<close>

definition allValid :: "env \<Rightarrow> Derivation \<Rightarrow> bool" where
  "allValid E d = list_all (isValidPath E) (outputs d)"

text \<open>Lines 350 to 356: the loop over the input derivations; \<open>f\<close> is the recursive call
  for one input.\<close>

fun createDeps ::
    "(Path \<Rightarrow> state \<Rightarrow> error + (StepRef option \<times> state)) \<Rightarrow> StepRef \<Rightarrow> Path list \<Rightarrow> state
     \<Rightarrow> error + state" where
  "createDeps f step [] st = Inr st"
| "createDeps f step (i # is) st =
     (case f i st of
        Inl e \<Rightarrow> Inl e
      | Inr (None, st1) \<Rightarrow> createDeps f step is st1
      | Inr (Some dep, st1) \<Rightarrow>
          createDeps f step is (updStep step (\<lambda>s. s\<lparr>deps := List.insert dep (deps s)\<rparr>) st1))"

text \<open>Lines 360 to 368.\<close>

definition finishStep :: "StepRef \<Rightarrow> state \<Rightarrow> error + (StepRef option \<times> state)" where
  "finishStep step st =
     (case heap st step of
        None \<Rightarrow> Inl DanglingPointer
      | Some s \<Rightarrow>
          if created s then Inl AssertionFailed
          else
            let st1 = st\<lparr>heap := (heap st)(step \<mapsto> s\<lparr>created := True\<rparr>)\<rparr> in
            Inr (Some step,
                 if deps s = [] then st1\<lparr>newRunnable := List.insert step (newRunnable st1)\<rparr>
                 else st1))"

text \<open>\<^verbatim>\<open>State::createStep\<close>. The first argument bounds the depth of the recursion. When
  all outputs are valid the function returns the null pointer, and the new Step, to
  which only the local variable \<open>step\<close> pointed, is destroyed.\<close>

fun createStep ::
    "nat \<Rightarrow> env \<Rightarrow> Path \<Rightarrow> BuildID option \<Rightarrow> StepRef option \<Rightarrow> state
     \<Rightarrow> error + (StepRef option \<times> state)" where
  "createStep 0 E p referringBuild referringStep st = Inl OutOfFuel"
| "createStep (Suc n) E p referringBuild referringStep st =
     (if p \<in> set (finishedDrvs st) then Inr (None, st)
      else
        case internStep p referringBuild referringStep st of
          Inl e \<Rightarrow> Inl e
        | Inr (step, isNew, st1) \<Rightarrow>
            if \<not> isNew then Inr (Some step, st1)
            else
              case readDrv E p st1 of
                Inl e \<Rightarrow> Inl e
              | Inr (d, st2) \<Rightarrow>
                  let st3 = updStep step (initStep E d) st2 in
                  if allValid E d then
                    Inr (None, st3\<lparr>finishedDrvs := List.insert p (finishedDrvs st3),
                                   heap := (heap st3)(step := None)\<rparr>)
                  else
                    case createDeps (\<lambda>i s. createStep n E i None (Some step) s) step
                           (inputDrvs d)
                           (st3\<lparr>newSteps := List.insert step (newSteps st3)\<rparr>) of
                      Inl e \<Rightarrow> Inl e
                    | Inr st4 \<Rightarrow> finishStep step st4)"

subsection \<open>createBuild\<close>

text \<open>Lines 95 to 111: the derivation of the build is not a valid path.\<close>

definition abortGCed :: "env \<Rightarrow> Build \<Rightarrow> state \<Rightarrow> Build \<times> state" where
  "abortGCed E build st =
     (if \<not> finishedInDB build then
        (build\<lparr>finishedInDB := True\<rparr>,
         (commit [Exec sqlAbort
                    [PId (bid build), PStatus bsAborted, PTime (now E), PStr gcMessage]] st)
           \<lparr>dbBuilds := updateAborted (bid build) bsAborted (now E) gcMessage (dbBuilds st),
            nrBuildsDone := Suc (nrBuildsDone st)\<rparr>)
      else (build, st))"

text \<open>\<^verbatim>\<open>newBuilds.find(path)\<close> followed by \<^verbatim>\<open>newBuilds.erase(i)\<close>: the first build of the
  working set with this derivation path, and the working set without it.\<close>

fun findBuild :: "Path \<Rightarrow> (Path \<times> Build) list \<Rightarrow> (Build \<times> (Path \<times> Build) list) option" where
  "findBuild p [] = None"
| "findBuild p (x # xs) =
     (if fst x = p then Some (snd x, xs)
      else map_option (\<lambda>(b, r). (b, x # r)) (findBuild p xs))"

text \<open>Lines 122 to 128, the \<^verbatim>\<open>while (true)\<close> loop for one new step \<open>r\<close>; \<open>f\<close> is the
  recursive call of \<^verbatim>\<open>createBuild\<close>, and the first argument bounds the iterations.\<close>

fun piggyback ::
    "nat \<Rightarrow> (Build \<Rightarrow> state \<Rightarrow> error + (Build \<times> state)) \<Rightarrow> StepRef \<Rightarrow> state \<Rightarrow> error + state" where
  "piggyback 0 f r st = Inl OutOfFuel"
| "piggyback (Suc k) f r st =
     (case heap st r of
        None \<Rightarrow> Inl DanglingPointer
      | Some s \<Rightarrow>
          (case findBuild (drvPath s) (newBuilds st) of
             None \<Rightarrow> Inr st
           | Some (b, rest) \<Rightarrow>
               (case f b (st\<lparr>newBuilds := rest\<rparr>) of
                  Inl e \<Rightarrow> Inl e
                | Inr (b', st1) \<Rightarrow> piggyback k f r st1)))"

text \<open>A \<^verbatim>\<open>for\<close> loop over Steps whose body can throw.\<close>

fun forEachStep ::
    "(StepRef \<Rightarrow> state \<Rightarrow> error + state) \<Rightarrow> StepRef list \<Rightarrow> state \<Rightarrow> error + state" where
  "forEachStep g [] st = Inr st"
| "forEachStep g (r # rs) st =
     (case g r st of Inl e \<Rightarrow> Inl e | Inr st1 \<Rightarrow> forEachStep g rs st1)"

text \<open>Lines 133 to 145: no step was returned. The helper \<^verbatim>\<open>markSucceededBuild\<close> writes
  through the transaction.\<close>

definition cachedSuccess :: "env \<Rightarrow> Build \<Rightarrow> state \<Rightarrow> error + (Build \<times> state)" where
  "cachedSuccess E build st =
     (case readDrv E (bdrvPath build) st of
        Inl e \<Rightarrow> Inl e
      | Inr (d, st1) \<Rightarrow>
          Inr (build\<lparr>finishedInDB := True\<rparr>,
               (commit [MarkSucceededBuild (bid build) (getBuildOutput E d) True (now E) (now E)]
                  st1)
                 \<lparr>dbBuilds := updateSucceeded (bid build) True (now E) (now E) (dbBuilds st1)\<rparr>))"

text \<open>Lines 152 to 174: the two statuses that the body of the classification loop
  computes for the step \<open>r\<close> with the contents \<open>s\<close>.\<close>

definition supported :: "env \<Rightarrow> Step \<Rightarrow> bool" where
  "supported E s = list_ex (\<lambda>m. m s) (machines E)"

definition classifyStep :: "env \<Rightarrow> StepRef \<Rightarrow> StepRef \<Rightarrow> Step \<Rightarrow> BuildStatus \<times> BuildStepStatus" where
  "classifyStep E root r s =
     (let (buildStatus, buildStepStatus) =
            (if checkCachedFailure E s
             then (if root = r then bsFailed else bsDepFailed, bssFailed)
             else (bsSuccess, bssFailed))
      in if buildStatus = bsSuccess
         then (if \<not> supported E s then (bsUnsupported, bssUnsupported)
               else (buildStatus, buildStepStatus))
         else (buildStatus, buildStepStatus))"

text \<open>Lines 176 to 193: the build is failed in the database. The helper
  \<^verbatim>\<open>createBuildStep\<close> writes the row of the build step through the same transaction.\<close>

definition failBuild ::
    "env \<Rightarrow> Build \<Rightarrow> StepRef \<Rightarrow> BuildStatus \<Rightarrow> BuildStepStatus \<Rightarrow> state \<Rightarrow> Build \<times> state" where
  "failBuild E build r buildStatus buildStepStatus st =
     (if \<not> finishedInDB build then
        (build\<lparr>finishedInDB := True\<rparr>,
         (commit [CreateBuildStep 0 (bid build) r [] buildStepStatus,
                  Exec sqlFail
                    [PId (bid build), PStatus buildStatus, PTime (now E),
                     PInt (if buildStatus \<noteq> bsUnsupported then 1 else 0)]] st)
           \<lparr>dbBuilds :=
              updateFailed (bid build) buildStatus (now E)
                (if buildStatus \<noteq> bsUnsupported then 1 else 0) (dbBuilds st),
            nrBuildsDone := Suc (nrBuildsDone st)\<rparr>)
      else (build, st))"

text \<open>Lines 150 to 194: the loop over the new steps, left at the first bad step. The
  result holds \<open>badStep\<close>.\<close>

fun classifySteps ::
    "env \<Rightarrow> StepRef \<Rightarrow> Build \<Rightarrow> StepRef list \<Rightarrow> state \<Rightarrow> error + (bool \<times> Build \<times> state)" where
  "classifySteps E root build [] st = Inr (False, build, st)"
| "classifySteps E root build (r # rs) st =
     (case heap st r of
        None \<Rightarrow> Inl DanglingPointer
      | Some s \<Rightarrow>
          (case classifyStep E root r s of
             (buildStatus, buildStepStatus) \<Rightarrow>
               if buildStatus \<noteq> bsSuccess
               then Inr (True, failBuild E build r buildStatus buildStepStatus st)
               else classifySteps E root build rs st))"

text \<open>Lines 201 to 206.\<close>

definition publish :: "Build \<Rightarrow> StepRef \<Rightarrow> state \<Rightarrow> Build \<times> state" where
  "publish build root st =
     (build\<lparr>toplevel := Some root\<rparr>,
      if \<not> finishedInDB build
      then st\<lparr>builds := AList.update (bid build) (build\<lparr>toplevel := Some root\<rparr>) (builds st)\<rparr>
      else st)"

text \<open>Lines 131 to 209: what \<^verbatim>\<open>createBuild\<close> does after the piggyback pass.\<close>

definition concludeBuild ::
    "env \<Rightarrow> Build \<Rightarrow> StepRef option \<Rightarrow> state \<Rightarrow> error + (Build \<times> state)" where
  "concludeBuild E build step st =
     (case step of
        None \<Rightarrow> cachedSuccess E build st
      | Some root \<Rightarrow>
          (case classifySteps E root build (iterSteps E (newSteps st)) st of
             Inl e \<Rightarrow> Inl e
           | Inr (badStep, build1, st1) \<Rightarrow>
               if badStep then Inr (build1, st1) else Inr (publish build1 root st1)))"

text \<open>The end of the scope of \<open>newSteps\<close> and \<open>finishedDrvs\<close>: the new steps that nothing
  else owns are destroyed, and the two variables are again those of the caller.\<close>

definition leaveBuild :: "StepRef list \<Rightarrow> Path list \<Rightarrow> state \<Rightarrow> state" where
  "leaveBuild ns fd st =
     (release (newSteps st) (toplevels (builds st) @ newRunnable st) st)
       \<lparr>newSteps := ns, finishedDrvs := fd\<rparr>"

text \<open>The closure \<^verbatim>\<open>createBuild\<close>, lines 91 to 210. The first argument bounds the depth
  of the recursion and the iterations of the loops inside. The result holds the Build
  as the call leaves it.\<close>

fun createBuild :: "nat \<Rightarrow> env \<Rightarrow> Build \<Rightarrow> state \<Rightarrow> error + (Build \<times> state)" where
  "createBuild 0 E build st0 = Inl OutOfFuel"
| "createBuild (Suc n) E build st0 =
     (let st = st0\<lparr>loaded := loaded st0 @ [bid build], nrAdded := Suc (nrAdded st0)\<rparr> in
      if \<not> isValidPath E (bdrvPath build) then Inr (abortGCed E build st)
      else
        case createStep n E (bdrvPath build) (Some (bid build)) None
               (st\<lparr>newSteps := [], finishedDrvs := []\<rparr>) of
          Inl e \<Rightarrow> Inl e
        | Inr (step, st1) \<Rightarrow>
            (case forEachStep (piggyback n (\<lambda>b s. createBuild n E b s))
                    (iterSteps E (newSteps st1)) st1 of
               Inl e \<Rightarrow> Inl e
             | Inr st2 \<Rightarrow>
                 (case concludeBuild E build step st2 of
                    Inl e \<Rightarrow> Inl e
                  | Inr (build1, st3) \<Rightarrow>
                      Inr (build1, leaveBuild (newSteps st) (finishedDrvs st) st3))))"

subsection \<open>The drain loop\<close>

text \<open>\<^verbatim>\<open>newRunnable.clear()\<close>, and the end of the scope of \<open>newRunnable\<close>.\<close>

definition clearRunnable :: "state \<Rightarrow> state" where
  "clearRunnable st =
     (release (newRunnable st) (toplevels (builds st)) st)\<lparr>newRunnable := []\<rparr>"

text \<open>Modelled from the spec: \<^verbatim>\<open>makeRunnable\<close> is defined outside this file. The spec
  says that the caller adds every step of \<open>newRunnable\<close> to the runnable queue of the
  dispatcher.\<close>

definition makeRunnable :: "StepRef \<Rightarrow> state \<Rightarrow> state" where
  "makeRunnable r st = st\<lparr>runnable := runnable st @ [r]\<rparr>"

definition addPrefix :: "BuildID \<Rightarrow> error \<Rightarrow> error" where
  "addPrefix i e = (case e of ReadError p \<Rightarrow> WhileLoading i e | _ \<Rightarrow> e)"

text \<open>Lines 215 to 235; the first argument bounds the iterations.\<close>

fun drainQueue :: "nat \<Rightarrow> env \<Rightarrow> state \<Rightarrow> error + state" where
  "drainQueue 0 E st = Inl OutOfFuel"
| "drainQueue (Suc n) E st =
     (case newBuilds st of
        [] \<Rightarrow> Inr st
      | (p, build) # rest \<Rightarrow>
          (case createBuild n E build ((clearRunnable (st\<lparr>newBuilds := rest\<rparr>))\<lparr>nrAdded := 0\<rparr>) of
             Inl e \<Rightarrow> Inl (addPrefix (bid build) e)
           | Inr (b, st1) \<Rightarrow>
               drainQueue n E
                 ((fold makeRunnable (iterSteps E (newRunnable st1)) st1)
                    \<lparr>nrBuildsRead := nrBuildsRead st1 + nrAdded st1\<rparr>)))"

text \<open>\<^verbatim>\<open>State::getQueuedBuilds\<close>.\<close>

definition getQueuedBuilds :: "nat \<Rightarrow> env \<Rightarrow> state \<Rightarrow> error + state" where
  "getQueuedBuilds n E st =
     (case drainQueue n E ((scanQueue E st)\<lparr>newRunnable := []\<rparr>) of
        Inl e \<Rightarrow> Inl e
      | Inr st1 \<Rightarrow> Inr (clearRunnable st1))"

section \<open>Example inputs\<close>

definition emptyState :: state where
  "emptyState = \<lparr>heap = Map.empty, nextId = 0, steps = Map.empty, builds = [], runnable = [],
     nrBuildsDone = 0, nrBuildsRead = 0, dbBuilds = [], txns = [], drvReads = [], loaded = [],
     lastBuildId = 0, newBuilds = [], newRunnable = [], nrAdded = 0, newSteps = [],
     finishedDrvs = []\<rparr>"

definition queuedRow :: "BuildID \<Rightarrow> Path \<Rightarrow> BuildsRow" where
  "queuedRow i p = \<lparr>row_id = i, row_project = ''p'', row_jobset = ''s'', row_job = ''j'',
     row_drvPath = p, row_maxsilent = 0, row_timeout = 0, row_finished = 0, row_busy = 0,
     row_buildStatus = None, row_startTime = None, row_stopTime = None, row_errorMsg = None,
     row_isCachedBuild = None\<rparr>"

definition queuedBuild :: "BuildID \<Rightarrow> Path \<Rightarrow> Build" where
  "queuedBuild i p = buildOfRow (queuedRow i p)"

text \<open>A store in which the derivations \<open>drvs\<close> can be read and the paths \<open>valid\<close> are
  valid; one machine that supports every step, no cached failure, no pinned build.\<close>

definition storeEnv :: "(Path \<times> Derivation) list \<Rightarrow> Path list \<Rightarrow> env" where
  "storeEnv drvs valid = \<lparr>isValidPath = (\<lambda>p. p \<in> set valid), readDerivation = map_of drvs,
     getBuildOutput = (\<lambda>d. BuildOutput 0), checkCachedFailure = (\<lambda>s. False),
     machines = [\<lambda>s. True], localPlatforms = [''x86_64-linux''], buildOne = 0, now = 1000,
     addrOf = (\<lambda>a. a)\<rparr>"

definition derivation :: "Path list \<Rightarrow> Path list \<Rightarrow> Derivation" where
  "derivation outs ins = \<lparr>outputs = outs, inputDrvs = ins, env = Map.empty,
     platform = ''x86_64-linux''\<rparr>"

text \<open>Build 7 is pinned, and the only queued build is build 5.\<close>

definition pinEnv :: env where
  "pinEnv = (storeEnv [] [])\<lparr>buildOne := 7\<rparr>"

definition pinState :: state where
  "pinState = emptyState\<lparr>dbBuilds := [queuedRow 5 ''/d/five'']\<rparr>"

text \<open>A Step that is alive and initialised, for the interner example.\<close>

definition internedState :: state where
  "internedState = emptyState\<lparr>heap := [0 \<mapsto> (newStep ''/d/X'')\<lparr>created := True\<rparr>],
     nextId := 1, steps := [''/d/X'' \<mapsto> 0]\<rparr>"

text \<open>A store with the derivation \<^verbatim>\<open>/d/X\<close>, whose only output is \<^verbatim>\<open>/o/X\<close>.\<close>

definition liveEnv :: "Path list \<Rightarrow> env" where
  "liveEnv valid = storeEnv [(''/d/X'', derivation [''/o/X''] [])] valid"

section \<open>Predicates of the properties\<close>

text \<open>No object has an identity that is still to be handed out.\<close>

definition fresh :: "state \<Rightarrow> bool" where
  "fresh st =
     ((\<forall>a. nextId st \<le> a \<longrightarrow> heap st a = None) \<and>
      (\<forall>p a. steps st p = Some a \<longrightarrow> a < nextId st))"

text \<open>Every Step that is alive is the Step that \<open>steps\<close> holds for its derivation path,
  and an entry of \<open>steps\<close> that is not stale leads to a Step with the path of the entry.
  Then no two Steps that are alive have the same derivation path.\<close>

definition interned :: "state \<Rightarrow> bool" where
  "interned st =
     ((\<forall>a s. heap st a = Some s \<longrightarrow> steps st (drvPath s) = Some a) \<and>
      (\<forall>p a s. steps st p = Some a \<and> heap st a = Some s \<longrightarrow> drvPath s = p))"

text \<open>The scenarios of the classification: the build 4 of \<^verbatim>\<open>/d/arm\<close>, whose only step
  no machine supports, and the same build with a cached failure of the step.\<close>

definition armDrv :: Derivation where
  "armDrv = (derivation [''/o/arm''] [])\<lparr>platform := ''armv7l-linux''\<rparr>"

definition armEnv :: env where
  "armEnv = (storeEnv [(''/d/arm'', armDrv)] [''/d/arm''])\<lparr>machines := []\<rparr>"

definition failedEnv :: env where
  "failedEnv = (storeEnv [(''/d/arm'', armDrv)] [''/d/arm''])\<lparr>checkCachedFailure := (\<lambda>s. True)\<rparr>"

definition armState :: state where
  "armState = emptyState\<lparr>dbBuilds := [queuedRow 4 ''/d/arm'']\<rparr>"

text \<open>The state in which the classification of build 4 starts: the step 0 is new.\<close>

definition armStep :: Step where
  "armStep = (newStep ''/d/arm'')\<lparr>drv := armDrv, sbuilds := [4], created := True\<rparr>"

definition armClassify :: state where
  "armClassify = armState\<lparr>heap := [0 \<mapsto> armStep], nextId := 1, steps := [''/d/arm'' \<mapsto> 0],
     newSteps := [0], newRunnable := [0], nrAdded := 1, loaded := [4],
     drvReads := [''/d/arm'']\<rparr>"

text \<open>The scenario of the garbage-collected derivation: build 3 of \<^verbatim>\<open>/d/gone\<close>.\<close>

definition goneState :: state where
  "goneState = emptyState\<lparr>dbBuilds := [queuedRow 3 ''/d/gone'']\<rparr>"

text \<open>The scenario of the cached success: build 2 of \<^verbatim>\<open>/d/cached\<close>, whose output is
  valid.\<close>

definition cachedEnv :: env where
  "cachedEnv = storeEnv [(''/d/cached'', derivation [''/o/cached''] [])]
     [''/d/cached'', ''/o/cached'']"

definition cachedState :: state where
  "cachedState = emptyState\<lparr>dbBuilds := [queuedRow 2 ''/d/cached'']\<rparr>"

text \<open>The scenario of the piggyback: build 5 of \<^verbatim>\<open>/d/A\<close>, which has the input
  \<^verbatim>\<open>/d/C\<close>, and build 6 of \<^verbatim>\<open>/d/C\<close>, still in the working set.\<close>

definition sharedEnv :: env where
  "sharedEnv = storeEnv
     [(''/d/A'', derivation [''/o/A''] [''/d/C'']), (''/d/C'', derivation [''/o/C''] [])]
     [''/d/A'', ''/d/C'']"

definition sharedState :: state where
  "sharedState = emptyState\<lparr>dbBuilds := [queuedRow 5 ''/d/A'', queuedRow 6 ''/d/C''],
     newBuilds := [(''/d/C'', queuedBuild 6 ''/d/C'')]\<rparr>"

text \<open>Observations of a result of \<^verbatim>\<open>createBuild\<close>: the transactions committed, and the
  contents of a Step.\<close>

definition committed :: "error + (Build \<times> state) \<Rightarrow> stmt list list option" where
  "committed r = (case r of Inl e \<Rightarrow> None | Inr (b, st) \<Rightarrow> Some (txns st))"

definition stepIn :: "error + (Build \<times> state) \<Rightarrow> StepRef \<Rightarrow> Step option" where
  "stepIn r a = (case r of Inl e \<Rightarrow> None | Inr (b, st) \<Rightarrow> heap st a)"

text \<open>What a result shows: whether the build is finished in the database, its
  top-level step, the top-level steps of the builds map, the builds loaded, the paths
  of the working set and, for some Steps, the path, the builds, the reverse
  dependencies, the dependencies and \<open>created\<close>.\<close>

definition observe ::
    "error + (Build \<times> state) \<Rightarrow> StepRef list
     \<Rightarrow> (bool \<times> StepRef option \<times> (BuildID \<times> StepRef option) list \<times> BuildID list \<times> Path list
         \<times> (Path \<times> BuildID list \<times> StepRef list \<times> StepRef list \<times> bool) option list) option" where
  "observe r as =
     (case r of
        Inl e \<Rightarrow> None
      | Inr (b, st) \<Rightarrow>
          Some (finishedInDB b, toplevel b, map (\<lambda>(i, x). (i, toplevel x)) (builds st),
                loaded st, map fst (newBuilds st),
                map (\<lambda>a. map_option (\<lambda>s. (drvPath s, sbuilds s, rdeps s, deps s, created s))
                            (heap st a)) as))"

text \<open>What \<^verbatim>\<open>createStep\<close> leaves alone and what it only extends.\<close>

definition stepFrame :: "state \<Rightarrow> state \<Rightarrow> bool" where
  "stepFrame st st' =
     (txns st' = txns st \<and> dbBuilds st' = dbBuilds st \<and> builds st' = builds st \<and>
      newBuilds st' = newBuilds st \<and> nrAdded st' = nrAdded st \<and>
      nrBuildsDone st' = nrBuildsDone st \<and> nrBuildsRead st' = nrBuildsRead st \<and>
      loaded st' = loaded st \<and> runnable st' = runnable st \<and>
      lastBuildId st' = lastBuildId st \<and> nextId st \<le> nextId st' \<and>
      set (newSteps st) \<subseteq> set (newSteps st') \<and>
      set (newRunnable st) \<subseteq> set (newRunnable st') \<and>
      set (finishedDrvs st) \<subseteq> set (finishedDrvs st') \<and>
      prefix (drvReads st) (drvReads st'))"

text \<open>The ids of the builds of the working set.\<close>

definition working :: "state \<Rightarrow> BuildID multiset" where
  "working st = mset (map (\<lambda>x. bid (snd x)) (newBuilds st))"

text \<open>The transactions that \<^verbatim>\<open>createBuild\<close> commits.\<close>

definition terminalTxn :: "stmt list \<Rightarrow> bool" where
  "terminalTxn t =
     ((\<exists>i tm. t = [Exec sqlAbort [PId i, PStatus bsAborted, PTime tm, PStr gcMessage]]) \<or>
      (\<exists>i r bs bss tm. bs \<in> {bsFailed, bsDepFailed, bsUnsupported} \<and>
         t = [CreateBuildStep 0 i r [] bss,
              Exec sqlFail [PId i, PStatus bs, PTime tm,
                            PInt (if bs = bsUnsupported then 0 else 1)]]) \<or>
      (\<exists>i out tm. t = [MarkSucceededBuild i out True tm tm]))"

text \<open>A row after an update with the guard: it keeps its id, and it is unchanged when
  the build was finished already.\<close>

definition guardedRow :: "BuildsRow \<Rightarrow> BuildsRow \<Rightarrow> bool" where
  "guardedRow r r' = (row_id r' = row_id r \<and> (row_finished r \<noteq> 0 \<longrightarrow> r' = r))"

text \<open>What \<^verbatim>\<open>createBuild\<close> leaves alone, and how it extends the rest. The builds
  loaded are \<open>pre\<close> followed by the builds \<open>l\<close> that left the working set; each of them
  was counted in \<open>nrAdded\<close>.\<close>

definition coreFrame :: "BuildID list \<Rightarrow> state \<Rightarrow> state \<Rightarrow> bool" where
  "coreFrame pre st st' =
     (nrBuildsRead st' = nrBuildsRead st \<and> runnable st' = runnable st \<and>
      lastBuildId st' = lastBuildId st \<and> nextId st \<le> nextId st' \<and>
      nrBuildsDone st \<le> nrBuildsDone st' \<and>
      (\<exists>new. txns st' = txns st @ new \<and> list_all terminalTxn new) \<and>
      list_all2 guardedRow (dbBuilds st) (dbBuilds st') \<and>
      subseq (newBuilds st') (newBuilds st) \<and>
      (\<exists>l. loaded st' = loaded st @ pre @ l \<and> working st = working st' + mset l \<and>
           nrAdded st' = nrAdded st + length (pre @ l)))"

definition ingestFrame :: "Build \<Rightarrow> state \<Rightarrow> state \<Rightarrow> bool" where
  "ingestFrame build st st' =
     (coreFrame [bid build] st st' \<and> newSteps st' = newSteps st \<and>
      finishedDrvs st' = finishedDrvs st)"

text \<open>Two states of a Step that differ at most in the back-references.\<close>

definition sameCore :: "Step \<Rightarrow> Step \<Rightarrow> bool" where
  "sameCore s s' =
     (drvPath s' = drvPath s \<and> created s' = created s \<and> deps s' = deps s \<and> drv s' = drv s)"

text \<open>From \<open>st\<close> to \<open>st'\<close> every Step that is alive, those of \<open>X\<close> apart, stays alive and
  keeps its path, its derivation, its dependencies and \<open>created\<close>.\<close>

definition preserves :: "StepRef set \<Rightarrow> state \<Rightarrow> state \<Rightarrow> bool" where
  "preserves X st st' =
     (nextId st \<le> nextId st' \<and>
      (\<forall>a s. a \<notin> X \<and> heap st a = Some s \<longrightarrow> (\<exists>s'. heap st' a = Some s' \<and> sameCore s s')))"

text \<open>The Steps that join \<open>newSteps\<close> and \<open>newRunnable\<close> from \<open>st\<close> to \<open>st'\<close> were made in
  between.\<close>

definition newOnly :: "state \<Rightarrow> state \<Rightarrow> bool" where
  "newOnly st st' =
     (nextId st \<le> nextId st' \<and>
      set (newSteps st') \<subseteq> set (newSteps st) \<union> {nextId st ..< nextId st'} \<and>
      set (newRunnable st') \<subseteq> set (newRunnable st) \<union> {nextId st ..< nextId st'})"

text \<open>A run from a state without dangling identities ends in such a state and preserves
  the Steps that were alive.\<close>

definition okRel :: "state \<Rightarrow> state \<Rightarrow> bool" where
  "okRel s s' = (fresh s \<longrightarrow> fresh s' \<and> preserves {} s s')"

text \<open>The Step is alive and initialised.\<close>

definition liveCreated :: "state \<Rightarrow> StepRef \<Rightarrow> bool" where
  "liveCreated st a = (\<exists>s. heap st a = Some s \<and> created s)"





text \<open>An entry of \<open>steps\<close> that is not stale leads to a Step with the path of the entry.\<close>

definition entriesOk :: "state \<Rightarrow> bool" where
  "entriesOk st = (\<forall>p a s. steps st p = Some a \<and> heap st a = Some s \<longrightarrow> drvPath s = p)"

text \<open>The Steps of \<open>newRunnable\<close> and \<open>newSteps\<close> have identities that were handed out.\<close>

definition bounded :: "state \<Rightarrow> bool" where
  "bounded st = (\<forall>a \<in> set (newRunnable st) \<union> set (newSteps st). a < nextId st)"

text \<open>The dependencies of the Step \<open>s\<close> are alive and initialised Steps of input
  derivations of \<open>d\<close>, and every input derivation of the list \<open>done\<close> is recorded in
  \<open>finishedDrvs\<close> or has its Step among the dependencies.\<close>

definition linked :: "state \<Rightarrow> Derivation \<Rightarrow> Path list \<Rightarrow> Step \<Rightarrow> bool" where
  "linked st d done s =
     ((\<forall>x \<in> set (deps s). \<exists>t. heap st x = Some t \<and> created t \<and> drvPath t \<in> set (inputDrvs d)) \<and>
      (\<forall>i \<in> set done. i \<in> set (finishedDrvs st) \<or>
         (\<exists>x \<in> set (deps s). \<exists>t. heap st x = Some t \<and> drvPath t = i)))"

text \<open>The Step \<open>a\<close> went through the whole of \<^verbatim>\<open>createStep\<close>: it is alive, \<open>created\<close> is
  true, it is one of the new steps, its derivation is the one read from its path, all
  its input derivations are linked, and it is in \<open>newRunnable\<close> exactly when it has no
  dependencies.\<close>

definition initialised :: "env \<Rightarrow> state \<Rightarrow> StepRef \<Rightarrow> bool" where
  "initialised E st a =
     (\<exists>s. heap st a = Some s \<and> created s \<and> a \<in> set (newSteps st) \<and>
          readDerivation E (drvPath s) = Some (drv s) \<and>
          (a \<in> set (newRunnable st) \<longleftrightarrow> deps s = []) \<and>
          linked st (drv s) (inputDrvs (drv s)) s)"

text \<open>From \<open>st\<close> to \<open>st'\<close> the Steps stay alive and keep their paths, the initialised ones
  stay as they are, the three sets only grow, and no Step that was alive and
  initialised joins \<open>newRunnable\<close>.\<close>

definition grows :: "state \<Rightarrow> state \<Rightarrow> bool" where
  "grows st st' =
     ((\<forall>x t. heap st x = Some t \<longrightarrow>
         (\<exists>t'. heap st' x = Some t' \<and> drvPath t' = drvPath t \<and> (created t \<longrightarrow> sameCore t t'))) \<and>
      set (newSteps st) \<subseteq> set (newSteps st') \<and>
      set (finishedDrvs st) \<subseteq> set (finishedDrvs st') \<and>
      set (newRunnable st) \<subseteq> set (newRunnable st') \<and>
      (\<forall>x \<in> set (newRunnable st'). x \<in> set (newRunnable st) \<or> \<not> liveCreated st x))"

text \<open>An identity that was handed out and whose object is gone stays without object.\<close>

definition noResurrect :: "state \<Rightarrow> state \<Rightarrow> bool" where
  "noResurrect st st' =
     (nextId st \<le> nextId st' \<and> (\<forall>x. x < nextId st \<and> heap st x = None \<longrightarrow> heap st' x = None))"

text \<open>The Steps with an identity from \<open>n0\<close> on that are alive are initialised, and those
  of them in \<open>newRunnable\<close> and \<open>newSteps\<close> are alive.\<close>

definition stepsDone :: "env \<Rightarrow> StepRef \<Rightarrow> state \<Rightarrow> bool" where
  "stepsDone E n0 st =
     ((\<forall>x. n0 \<le> x \<and> heap st x \<noteq> None \<longrightarrow> initialised E st x) \<and>
      (\<forall>x \<in> set (newRunnable st) \<union> set (newSteps st). n0 \<le> x \<longrightarrow> heap st x \<noteq> None))"

text \<open>The state inside the loop over the input derivations of the new Step \<open>a\<close> with
  the path \<open>p\<close> and the derivation \<open>d\<close>, after the inputs \<open>done\<close>.\<close>

definition building :: "env \<Rightarrow> StepRef \<Rightarrow> Path \<Rightarrow> Derivation \<Rightarrow> Path list \<Rightarrow> state \<Rightarrow> bool" where
  "building E a p d done st =
     (fresh st \<and> entriesOk st \<and> bounded st \<and> a < nextId st \<and>
      (\<exists>s. heap st a = Some s \<and> \<not> created s \<and> drv s = d \<and> drvPath s = p \<and>
           linked st d done s) \<and>
      a \<in> set (newSteps st) \<and> a \<notin> set (newRunnable st) \<and>
      stepsDone E (Suc a) st)"

text \<open>What a call of \<^verbatim>\<open>createStep\<close> for the path \<open>i\<close> guarantees when it runs from \<open>s\<close>
  to \<open>s'\<close> and returns \<open>r\<close>.\<close>

definition stepRun :: "env \<Rightarrow> Path \<Rightarrow> state \<Rightarrow> StepRef option \<Rightarrow> state \<Rightarrow> bool" where
  "stepRun E i s r s' =
     (fresh s' \<and> preserves {} s s' \<and> grows s s' \<and> noResurrect s s' \<and> newOnly s s' \<and>
      entriesOk s' \<and> bounded s' \<and> stepsDone E (nextId s) s' \<and>
      (r = None \<longrightarrow> i \<in> set (finishedDrvs s')) \<and>
      (\<forall>x. r = Some x \<longrightarrow> (\<exists>t. heap s' x = Some t \<and> created t \<and> drvPath t = i)))"

text \<open>The derivation of the path \<open>p\<close> can be read, and so can those of its input
  derivations, of theirs and so on, along chains of at most \<open>n\<close> derivations. Then no
  derivation of them is among its own inputs, directly or through other derivations.\<close>

fun readable :: "env \<Rightarrow> nat \<Rightarrow> Path \<Rightarrow> bool" where
  "readable E 0 p = False"
| "readable E (Suc n) p =
     (case readDerivation E p of
        None \<Rightarrow> False
      | Some d \<Rightarrow> list_all (readable E n) (inputDrvs d))"

text \<open>No Step that is alive and still under construction, as the Steps of the callers of
  a nested \<^verbatim>\<open>createStep\<close> are, has a derivation path that is readable within \<open>k\<close>
  levels.\<close>

definition offPath :: "env \<Rightarrow> nat \<Rightarrow> state \<Rightarrow> bool" where
  "offPath E k st = (\<forall>a s. heap st a = Some s \<and> \<not> created s \<longrightarrow> \<not> readable E k (drvPath s))"

section \<open>Properties\<close>

subsection \<open>The high-water mark of the scan\<close>

lemma scanRow_lastBuildId:
  "lastBuildId (scanRow E row st) =
     (if buildOne E \<noteq> 0 \<and> row_id row \<noteq> buildOne E then lastBuildId st
      else max (lastBuildId st) (row_id row))"
  by (simp add: scanRow_def Let_def max_def)

lemma fold_scanRow_lastBuildId:
  "lastBuildId (fold (scanRow E) rows st) = fold max (pinned E rows) (lastBuildId st)"
proof (induction rows arbitrary: st)
  case Nil
  show ?case by (simp add: pinned_def)
next
  case (Cons row rows)
  have "lastBuildId (fold (scanRow E) (row # rows) st)
      = fold max (pinned E rows) (lastBuildId (scanRow E row st))"
    using Cons.IH [of "scanRow E row st"] by simp
  also have "\<dots> = fold max (pinned E (row # rows)) (lastBuildId st)"
    by (auto simp: scanRow_lastBuildId pinned_def max.commute)
  finally show ?case .
qed

text \<open>
  C1, as amended. The scan with the high-water mark \<open>h\<close> leaves as the new high-water
  mark the maximum of \<open>h\<close> and of the ids of the rows of the result of the query that
  pass the single-build pin. Whether a row is dropped afterwards because its build is
  already in the builds map plays no role: the builds map does not occur on the right.
\<close>

theorem scanQueue_high_water:
  "lastBuildId (scanQueue E st) =
     Max (set (lastBuildId st # pinned E (queuedRows (dbBuilds st) (lastBuildId st))))"
proof -
  let ?rows = "queuedRows (dbBuilds st) (lastBuildId st)"
  have "lastBuildId (scanQueue E st) = fold max (pinned E ?rows) (lastBuildId st)"
    unfolding scanQueue_def by (simp add: fold_scanRow_lastBuildId)
  also have "\<dots> = Max (set (lastBuildId st # pinned E ?rows))"
    by (rule Max.set_eq_fold [symmetric])
  finally show ?thesis .
qed

text \<open>
  With build 7 pinned, the query returns the row of build 5, and the high-water mark
  stays 0: a row whose id differs from the pinned id does not advance it.
\<close>

theorem scanQueue_pinned_counterexample:
  "buildOne pinEnv = 7 \<and>
   map row_id (queuedRows (dbBuilds pinState) (lastBuildId pinState)) = [5] \<and>
   lastBuildId (scanQueue pinEnv pinState) = 0"
  by code_simp

lemma linkBack_simps [simp]:
  "drvPath (linkBack rb rs s) = drvPath s"
  "created (linkBack rb rs s) = created s"
  "deps (linkBack rb rs s) = deps s"
  "drv (linkBack rb rs s) = drv s"
  by (auto simp: linkBack_def Let_def split: option.splits)

lemma internStep_old:
  assumes "steps st p = Some w" "heap st w = Some s" "created s"
  shows "internStep p rb rs st = Inr (w, False, st\<lparr>heap := (heap st)(w \<mapsto> linkBack rb rs s)\<rparr>)"
  using assms by (simp add: internStep_def lookupStep_def fun_upd_idem)

lemma internStep_uncreated:
  assumes "steps st p = Some w" "heap st w = Some s" "\<not> created s"
  shows "internStep p rb rs st = Inl AssertionFailed"
  using assms by (simp add: internStep_def lookupStep_def)

lemma internStep_new:
  assumes "steps st p = None \<or> (\<exists>w. steps st p = Some w \<and> heap st w = None)"
  shows "internStep p rb rs st =
              Inr (nextId st, True,
                   st\<lparr>heap := (heap st)(nextId st \<mapsto> linkBack rb rs (newStep p)),
                      nextId := Suc (nextId st), steps := (steps st)(p \<mapsto> nextId st)\<rparr>)"
  using assms by (auto simp: internStep_def lookupStep_def newStep_def)

lemma internStep_cases:
  assumes "internStep p rb rs st = Inr (a, isNew, st')"
  obtains (old) s where "steps st p = Some a" "heap st a = Some s" "created s" "\<not> isNew"
      "st' = st\<lparr>heap := (heap st)(a \<mapsto> linkBack rb rs s)\<rparr>"
  | (new) "steps st p = None \<or> (\<exists>w. steps st p = Some w \<and> heap st w = None)"
      "a = nextId st" "isNew"
      "st' = st\<lparr>heap := (heap st)(nextId st \<mapsto> linkBack rb rs (newStep p)),
                      nextId := Suc (nextId st), steps := (steps st)(p \<mapsto> nextId st)\<rparr>"
proof (cases "steps st p")
  case None
  with assms internStep_new [of st p rb rs] show ?thesis by (auto intro: new)
next
  case (Some w)
  show ?thesis
  proof (cases "heap st w")
    case None
    with Some assms internStep_new [of st p rb rs] show ?thesis by (auto intro: new)
  next
    case (Some s)
    note hs = this
    show ?thesis
    proof (cases "created s")
      case True
      with hs \<open>steps st p = Some w\<close> assms internStep_old [of st p w s rb rs] show ?thesis
        by (auto intro: old)
    next
      case False
      with hs \<open>steps st p = Some w\<close> assms internStep_uncreated [of st p w s rb rs] show ?thesis
        by simp
    qed
  qed
qed

lemma internStep_fresh:
  assumes "internStep p rb rs st = Inr (a, isNew, st')" "fresh st"
  shows "fresh st'"
  using assms(1)
proof (cases rule: internStep_cases)
  case (old s)
  with assms(2) show ?thesis by (auto simp: fresh_def)
next
  case new
  with assms(2) show ?thesis by (auto simp: fresh_def less_Suc_eq)
qed

lemma internStep_interned:
  assumes "internStep p rb rs st = Inr (a, isNew, st')" "fresh st" "interned st"
  shows "interned st'"
  using assms(1)
proof (cases rule: internStep_cases)
  case (old s)
  with assms(3) show ?thesis by (auto simp: interned_def)
next
  case new
  have "nextId st \<noteq> x" if "steps st q = Some x" for q x
    using that assms(2) by (auto simp: fresh_def)
  moreover have "heap st (nextId st) = None"
    using assms(2) by (auto simp: fresh_def)
  ultimately show ?thesis using new assms(3)
    unfolding interned_def by (auto simp: newStep_def split: if_splits)
qed


text \<open>
  C2. The critical section of createStep over \<open>steps\<close>, in a state in which every Step
  that is alive is the one interned for its path. An entry that is alive (and
  initialised, as the code asserts) is returned with \<open>isNew = False\<close>; an entry whose
  weak handle is expired is replaced by a new Step, and so is a missing entry: the new
  Step has only its path set, apart from the back-references, and \<open>isNew = True\<close>.
  Afterwards the interner holds the returned Step for the path, that Step is alive, it
  is the only Step alive with this path, and the invariant holds again.
\<close>

theorem internStep_interner:
  assumes fr: "fresh st" and inv: "interned st"
  shows "(\<forall>w s. steps st p = Some w \<and> heap st w = Some s \<and> created s \<longrightarrow>
            internStep p rb rs st =
              Inr (w, False, st\<lparr>heap := (heap st)(w \<mapsto> linkBack rb rs s)\<rparr>)) \<and>
         (\<forall>w s. steps st p = Some w \<and> heap st w = Some s \<and> \<not> created s \<longrightarrow>
            internStep p rb rs st = Inl AssertionFailed) \<and>
         ((steps st p = None \<or> (\<exists>w. steps st p = Some w \<and> heap st w = None)) \<longrightarrow>
            internStep p rb rs st =
              Inr (nextId st, True,
                   st\<lparr>heap := (heap st)(nextId st \<mapsto> linkBack rb rs (newStep p)),
                      nextId := Suc (nextId st), steps := (steps st)(p \<mapsto> nextId st)\<rparr>)) \<and>
         (\<forall>a isNew st'. internStep p rb rs st = Inr (a, isNew, st') \<longrightarrow>
            fresh st' \<and> interned st' \<and> steps st' p = Some a \<and>
            (\<exists>s. heap st' a = Some s \<and> drvPath s = p) \<and>
            (\<forall>b t. heap st' b = Some t \<and> drvPath t = p \<longrightarrow> b = a))"
proof (intro conjI allI impI)
  fix w s assume "steps st p = Some w \<and> heap st w = Some s \<and> created s"
  then show "internStep p rb rs st = Inr (w, False, st\<lparr>heap := (heap st)(w \<mapsto> linkBack rb rs s)\<rparr>)"
    by (simp add: internStep_old)
next
  fix w s assume "steps st p = Some w \<and> heap st w = Some s \<and> \<not> created s"
  then show "internStep p rb rs st = Inl AssertionFailed"
    by (simp add: internStep_uncreated)
next
  assume "steps st p = None \<or> (\<exists>w. steps st p = Some w \<and> heap st w = None)"
  then show "internStep p rb rs st =
              Inr (nextId st, True,
                   st\<lparr>heap := (heap st)(nextId st \<mapsto> linkBack rb rs (newStep p)),
                      nextId := Suc (nextId st), steps := (steps st)(p \<mapsto> nextId st)\<rparr>)"
    by (rule internStep_new)
next
  fix a isNew st' assume run: "internStep p rb rs st = Inr (a, isNew, st')"
  show "fresh st'" using run fr by (rule internStep_fresh)
  show inv': "interned st'" using run fr inv by (rule internStep_interned)
  show at: "steps st' p = Some a"
    using run by (cases rule: internStep_cases) auto
  from run show live: "\<exists>s. heap st' a = Some s \<and> drvPath s = p"
  proof (cases rule: internStep_cases)
    case (old s)
    with inv show ?thesis by (auto simp: interned_def)
  next
    case new
    then show ?thesis by (simp add: newStep_def)
  qed
  fix b t assume "heap st' b = Some t \<and> drvPath t = p"
  with inv' at show "b = a" by (auto simp: interned_def)
qed

theorem internStep_interner_witness:
  "fresh internedState \<and> interned internedState \<and>
   internStep ''/d/X'' (Some 5) None internedState =
     Inr (0, False, internedState\<lparr>heap := (heap internedState)
       (0 \<mapsto> linkBack (Some 5) None ((newStep ''/d/X'')\<lparr>created := True\<rparr>))\<rparr>) \<and>
   internStep ''/d/Y'' None (Some 0) internedState =
     Inr (1, True, internedState\<lparr>heap := (heap internedState)
       (1 \<mapsto> linkBack None (Some 0) (newStep ''/d/Y'')),
       nextId := 2, steps := (steps internedState)(''/d/Y'' \<mapsto> 1)\<rparr>)"
proof -
  have fr: "fresh internedState"
    by (auto simp: fresh_def internedState_def emptyState_def)
  have inv: "interned internedState"
    by (auto simp: interned_def internedState_def emptyState_def newStep_def split: if_splits)
  have old: "steps internedState ''/d/X'' = Some 0 \<and>
      heap internedState 0 = Some ((newStep ''/d/X'')\<lparr>created := True\<rparr>) \<and>
      created ((newStep ''/d/X'')\<lparr>created := True\<rparr>)"
    by (simp add: internedState_def emptyState_def)
  have new: "steps internedState ''/d/Y'' = None \<or>
      (\<exists>w. steps internedState ''/d/Y'' = Some w \<and> heap internedState w = None)"
    by (simp add: internedState_def emptyState_def)
  have n: "nextId internedState = 1"
    by (simp add: internedState_def emptyState_def)
  from internStep_interner [OF fr inv, of "''/d/X''" "Some 5" None] old
  have a: "internStep ''/d/X'' (Some 5) None internedState =
     Inr (0, False, internedState\<lparr>heap := (heap internedState)
       (0 \<mapsto> linkBack (Some 5) None ((newStep ''/d/X'')\<lparr>created := True\<rparr>))\<rparr>)"
    by blast
  from internStep_interner [OF fr inv, of "''/d/Y''" None "Some 0"] new
  have "internStep ''/d/Y'' None (Some 0) internedState =
     Inr (nextId internedState, True, internedState\<lparr>heap := (heap internedState)
       (nextId internedState \<mapsto> linkBack None (Some 0) (newStep ''/d/Y'')),
       nextId := Suc (nextId internedState),
       steps := (steps internedState)(''/d/Y'' \<mapsto> nextId internedState)\<rparr>)"
    by blast
  then have b: "internStep ''/d/Y'' None (Some 0) internedState =
     Inr (1, True, internedState\<lparr>heap := (heap internedState)
       (1 \<mapsto> linkBack None (Some 0) (newStep ''/d/Y'')),
       nextId := 2, steps := (steps internedState)(''/d/Y'' \<mapsto> 1)\<rparr>)"
    by (simp add: n)
  from fr inv a b show ?thesis by blast
qed

subsection \<open>What createStep leaves alone\<close>

lemma stepFrame_refl: "stepFrame st st"
  by (simp add: stepFrame_def)

lemma stepFrame_trans: "stepFrame a b \<Longrightarrow> stepFrame b c \<Longrightarrow> stepFrame a c"
  unfolding stepFrame_def by (auto intro: prefix_order.trans)

lemma stepFrame_updStep: "stepFrame st (updStep a f st)"
  by (simp add: stepFrame_def updStep_def)

lemma stepFrame_internStep:
  "internStep p rb rs st = Inr (a, isNew, st') \<Longrightarrow> stepFrame st st'"
  by (erule internStep_cases) (simp_all add: stepFrame_def)

lemma stepFrame_readDrv: "readDrv E p st = Inr (d, st') \<Longrightarrow> stepFrame st st'"
  by (auto simp: readDrv_def stepFrame_def split: option.splits)

lemma stepFrame_finishStep: "finishStep a st = Inr (r, st') \<Longrightarrow> stepFrame st st'"
  by (auto simp: finishStep_def stepFrame_def Let_def split: option.splits if_splits)

lemma stepFrame_createDeps:
  assumes f: "\<And>i s r s'. f i s = Inr (r, s') \<Longrightarrow> stepFrame s s'"
  shows "createDeps f step is st = Inr st' \<Longrightarrow> stepFrame st st'"
proof (induction "is" arbitrary: st)
  case Nil
  then show ?case by (simp add: stepFrame_refl)
next
  case (Cons i "is")
  from Cons.prems obtain r s1 where run: "f i st = Inr (r, s1)"
    by (auto split: sum.splits)
  show ?case
  proof (cases r)
    case None
    with Cons.prems run have "createDeps f step is s1 = Inr st'" by simp
    then have "stepFrame s1 st'" by (rule Cons.IH)
    with f [OF run] show ?thesis by (rule stepFrame_trans)
  next
    case (Some dep)
    let ?s2 = "updStep step (\<lambda>s. s\<lparr>deps := List.insert dep (deps s)\<rparr>) s1"
    from Some Cons.prems run have "createDeps f step is ?s2 = Inr st'" by simp
    then have "stepFrame ?s2 st'" by (rule Cons.IH)
    with stepFrame_trans [OF f [OF run] stepFrame_updStep] show ?thesis
      by (rule stepFrame_trans)
  qed
qed

lemma stepFrame_createStep:
  "createStep n E p rb rs st = Inr (res, st') \<Longrightarrow> stepFrame st st'"
proof (induction n arbitrary: p rb rs st res st')
  case 0
  then show ?case by simp
next
  case (Suc n)
  show ?case
  proof (cases "p \<in> set (finishedDrvs st)")
    case True
    with Suc.prems show ?thesis by (simp add: stepFrame_refl)
  next
    case False
    with Suc.prems obtain a isNew st1 where i: "internStep p rb rs st = Inr (a, isNew, st1)"
      by (auto split: sum.splits)
    note f1 = stepFrame_internStep [OF i]
    show ?thesis
    proof (cases isNew)
      case False
      with Suc.prems \<open>p \<notin> set (finishedDrvs st)\<close> i show ?thesis using f1 by simp
    next
      case True
      with Suc.prems \<open>p \<notin> set (finishedDrvs st)\<close> i obtain d st2 where
        r: "readDrv E p st1 = Inr (d, st2)"
        by (auto split: sum.splits)
      let ?st3 = "updStep a (initStep E d) st2"
      have f3: "stepFrame st ?st3"
        using f1 stepFrame_readDrv [OF r] stepFrame_updStep stepFrame_trans by blast
      show ?thesis
      proof (cases "allValid E d")
        case True
        with Suc.prems \<open>p \<notin> set (finishedDrvs st)\<close> i \<open>isNew\<close> r
        have "st' = ?st3\<lparr>finishedDrvs := List.insert p (finishedDrvs ?st3),
                          heap := (heap ?st3)(a := None)\<rparr>"
          by (simp add: Let_def)
        then have "stepFrame ?st3 st'" by (auto simp: stepFrame_def)
        with f3 show ?thesis by (rule stepFrame_trans)
      next
        case False
        let ?st3' = "?st3\<lparr>newSteps := List.insert a (newSteps ?st3)\<rparr>"
        from False Suc.prems \<open>p \<notin> set (finishedDrvs st)\<close> i \<open>isNew\<close> r obtain st4 where
          c: "createDeps (\<lambda>i s. createStep n E i None (Some a) s) a (inputDrvs d) ?st3' = Inr st4"
          and fin: "finishStep a st4 = Inr (res, st')"
          by (auto simp: Let_def split: sum.splits)
        have "stepFrame ?st3 ?st3'" by (auto simp: stepFrame_def)
        moreover have "stepFrame ?st3' st4"
          using c by (rule stepFrame_createDeps [rotated]) (rule Suc.IH)
        ultimately show ?thesis
          using f3 stepFrame_finishStep [OF fin] stepFrame_trans by blast
      qed
    qed
  qed
qed

subsection \<open>The garbage-collected derivation\<close>

text \<open>
  C6. A build whose derivation path is not a valid store path, and which is not finished
  in the database yet, is aborted by \<^verbatim>\<open>createBuild\<close> at once: the call returns, it commits
  one transaction with the single update that sets \<^verbatim>\<open>finished = 1\<close>, \<^verbatim>\<open>busy = 0\<close>, the
  status Aborted, both times to now and the error message to the literal text, for the
  rows with the id of the build and \<^verbatim>\<open>finished = 0\<close>; \<open>finishedInDB\<close> is set and
  \<open>nrBuildsDone\<close> is one more. \<^verbatim>\<open>readDerivation\<close> is not called, and no Step is created:
  the heap, the interner and the builds map are as before.
\<close>

theorem createBuild_garbage_collected:
  assumes gone: "\<not> isValidPath E (bdrvPath build)" and nf: "\<not> finishedInDB build"
  shows "\<exists>st'. createBuild (Suc n) E build st = Inr (build\<lparr>finishedInDB := True\<rparr>, st') \<and>
           txns st' = txns st @
             [[Exec ''update Builds set finished = 1, busy = 0, buildStatus = $2, startTime = $3, stopTime = $3, errorMsg = $4 where id = $1 and finished = 0''
                 [PId (bid build), PStatus bsAborted, PTime (now E),
                  PStr ''derivation was garbage-collected prior to build'']]] \<and>
           dbBuilds st' =
             map (\<lambda>r. if row_id r = bid build \<and> row_finished r = 0
                       then r\<lparr>row_finished := 1, row_busy := 0,
                              row_buildStatus := Some bsAborted,
                              row_startTime := Some (now E), row_stopTime := Some (now E),
                              row_errorMsg :=
                                Some ''derivation was garbage-collected prior to build''\<rparr>
                       else r) (dbBuilds st) \<and>
           nrBuildsDone st' = Suc (nrBuildsDone st) \<and>
           drvReads st' = drvReads st \<and> heap st' = heap st \<and> nextId st' = nextId st \<and>
           steps st' = steps st \<and> builds st' = builds st \<and> newBuilds st' = newBuilds st \<and>
           newRunnable st' = newRunnable st"
  using gone nf
  by (simp add: abortGCed_def commit_def sqlAbort_def gcMessage_def updateAborted_def)

theorem createBuild_garbage_collected_witness:
  "\<not> isValidPath (storeEnv [] []) (bdrvPath (queuedBuild 3 ''/d/gone'')) \<and>
   \<not> finishedInDB (queuedBuild 3 ''/d/gone'') \<and>
   (\<exists>st'. createBuild (Suc 0) (storeEnv [] []) (queuedBuild 3 ''/d/gone'') goneState =
             Inr ((queuedBuild 3 ''/d/gone'')\<lparr>finishedInDB := True\<rparr>, st') \<and>
          map row_buildStatus (dbBuilds st') = [Some bsAborted] \<and>
          map row_finished (dbBuilds st') = [1] \<and>
          nrBuildsDone st' = 1 \<and> drvReads st' = [] \<and> nextId st' = 0)"
proof -
  let ?E = "storeEnv [] []" and ?b = "queuedBuild 3 ''/d/gone''"
  have gone: "\<not> isValidPath ?E (bdrvPath ?b)"
    by (simp add: storeEnv_def)
  have nf: "\<not> finishedInDB ?b"
    by (simp add: queuedBuild_def buildOfRow_def)
  from createBuild_garbage_collected [OF gone nf, of 0 goneState]
  obtain st' where st':
    "createBuild (Suc 0) ?E ?b goneState = Inr (?b\<lparr>finishedInDB := True\<rparr>, st')"
    "dbBuilds st' =
       map (\<lambda>r. if row_id r = bid ?b \<and> row_finished r = 0
                 then r\<lparr>row_finished := 1, row_busy := 0, row_buildStatus := Some bsAborted,
                        row_startTime := Some (now ?E), row_stopTime := Some (now ?E),
                        row_errorMsg := Some ''derivation was garbage-collected prior to build''\<rparr>
                 else r) (dbBuilds goneState)"
    "nrBuildsDone st' = Suc (nrBuildsDone goneState)"
    "drvReads st' = drvReads goneState" "nextId st' = nextId goneState"
    by blast
  have "map row_buildStatus (dbBuilds st') = [Some bsAborted]"
    "map row_finished (dbBuilds st') = [1]"
    "nrBuildsDone st' = 1" "drvReads st' = []" "nextId st' = 0"
    unfolding st'
    by (simp_all add: goneState_def emptyState_def queuedRow_def queuedBuild_def buildOfRow_def)
  with gone nf st'(1) show ?thesis
    by (intro conjI exI [where x = st']) simp_all
qed

subsection \<open>The classification pass\<close>

lemma classifyStep_eq:
  "classifyStep E root r s =
     (if checkCachedFailure E s then (if root = r then bsFailed else bsDepFailed, bssFailed)
      else if \<not> supported E s then (bsUnsupported, bssUnsupported)
      else (bsSuccess, bssFailed))"
  by (simp add: classifyStep_def)

lemma classifySteps_first_bad:
  assumes r: "heap st r = Some s"
    and bad: "classifyStep E root r s = (bs, bss)" "bs \<noteq> bsSuccess"
  shows "\<forall>x \<in> set pre. \<exists>t. heap st x = Some t \<and> fst (classifyStep E root x t) = bsSuccess \<Longrightarrow>
         classifySteps E root build (pre @ r # post) st =
           Inr (True, failBuild E build r bs bss st)"
proof (induction pre)
  case Nil
  with r bad show ?case by simp
next
  case (Cons x pre)
  from Cons.prems obtain t where "heap st x = Some t" "fst (classifyStep E root x t) = bsSuccess"
    by auto
  moreover from Cons have "classifySteps E root build (pre @ r # post) st =
           Inr (True, failBuild E build r bs bss st)"
    by simp
  ultimately show ?case by (auto split: prod.splits)
qed

lemma classifySteps_all_good:
  "\<forall>x \<in> set rs. \<exists>t. heap st x = Some t \<and> fst (classifyStep E root x t) = bsSuccess \<Longrightarrow>
   classifySteps E root build rs st = Inr (False, build, st)"
  by (induction rs) (auto split: prod.splits)

lemma createBuild_Suc_valid:
  assumes "isValidPath E (bdrvPath build)"
    and "createStep n E (bdrvPath build) (Some (bid build)) None
           (st0\<lparr>loaded := loaded st0 @ [bid build], nrAdded := Suc (nrAdded st0),
                newSteps := [], finishedDrvs := []\<rparr>) = Inr (step, st1)"
    and "forEachStep (piggyback n (createBuild n E)) (iterSteps E (newSteps st1)) st1 = Inr st2"
  shows "createBuild (Suc n) E build st0 =
           (case concludeBuild E build step st2 of
              Inl e \<Rightarrow> Inl e
            | Inr (build1, st3) \<Rightarrow>
                Inr (build1, leaveBuild (newSteps st0) (finishedDrvs st0) st3))"
  using assms by (simp add: Let_def split: sum.splits)

text \<open>
  C5. The body of the classification loop gives a step with a cached failure the build
  status Failed when it is the root and DepFailed otherwise, with the step status
  Failed; a step without cached failure that no machine supports gets Unsupported
  twice; any other step is good. When the loop meets its first bad step \<open>r\<close>, for a
  build that is not finished in the database, the pass ends there: one transaction
  holds the row of the failing build step and the update of the build
  (\<^verbatim>\<open>finished = 1\<close>, \<^verbatim>\<open>busy = 0\<close>, the status, both times now, \<^verbatim>\<open>isCachedBuild\<close> 1 unless
  the status is Unsupported), \<open>finishedInDB\<close> is set, \<open>nrBuildsDone\<close> is one more, and
  the builds map is as it was. \<^verbatim>\<open>createBuild\<close> then returns this build.
\<close>

theorem classification_first_bad_step:
  assumes nf: "\<not> finishedInDB build"
    and order: "iterSteps E (newSteps st) = pre @ r # post"
    and good: "\<forall>x \<in> set pre. \<exists>t. heap st x = Some t \<and> \<not> checkCachedFailure E t \<and> supported E t"
    and r: "heap st r = Some s"
    and bad: "checkCachedFailure E s \<or> \<not> supported E s"
    and bs: "bs = (if checkCachedFailure E s then (if r = root then bsFailed else bsDepFailed)
                   else bsUnsupported)"
    and bss: "bss = (if checkCachedFailure E s then bssFailed else bssUnsupported)"
    and st': "st' = st\<lparr>txns := txns st @
                 [[CreateBuildStep 0 (bid build) r [] bss,
                   Exec ''update Builds set finished = 1, busy = 0, buildStatus = $2, startTime = $3, stopTime = $3, isCachedBuild = $4 where id = $1 and finished = 0''
                     [PId (bid build), PStatus bs, PTime (now E),
                      PInt (if bs = bsUnsupported then 0 else 1)]]],
               dbBuilds :=
                 map (\<lambda>row. if row_id row = bid build \<and> row_finished row = 0
                       then row\<lparr>row_finished := 1, row_busy := 0, row_buildStatus := Some bs,
                              row_startTime := Some (now E), row_stopTime := Some (now E),
                              row_isCachedBuild := Some (if bs = bsUnsupported then 0 else 1)\<rparr>
                       else row) (dbBuilds st),
               nrBuildsDone := Suc (nrBuildsDone st)\<rparr>"
  shows "(\<forall>x t. classifyStep E root x t =
            (if checkCachedFailure E t then (if x = root then bsFailed else bsDepFailed, bssFailed)
             else if \<not> supported E t then (bsUnsupported, bssUnsupported)
             else (bsSuccess, bssFailed))) \<and>
         concludeBuild E build (Some root) st = Inr (build\<lparr>finishedInDB := True\<rparr>, st') \<and>
         builds st' = builds st \<and>
         (\<forall>n st0 st1.
            isValidPath E (bdrvPath build) \<and>
            createStep n E (bdrvPath build) (Some (bid build)) None
              (st0\<lparr>loaded := loaded st0 @ [bid build], nrAdded := Suc (nrAdded st0),
                   newSteps := [], finishedDrvs := []\<rparr>) = Inr (Some root, st1) \<and>
            forEachStep (piggyback n (createBuild n E)) (iterSteps E (newSteps st1)) st1 = Inr st
            \<longrightarrow>
            createBuild (Suc n) E build st0 =
              Inr (build\<lparr>finishedInDB := True\<rparr>,
                   leaveBuild (newSteps st0) (finishedDrvs st0) st') \<and>
            builds (leaveBuild (newSteps st0) (finishedDrvs st0) st') = builds st)"
proof -
  have eq: "classifyStep E root x t =
            (if checkCachedFailure E t then (if x = root then bsFailed else bsDepFailed, bssFailed)
             else if \<not> supported E t then (bsUnsupported, bssUnsupported)
             else (bsSuccess, bssFailed))" for x t
    by (auto simp: classifyStep_eq)
  have good': "\<forall>x \<in> set pre. \<exists>t. heap st x = Some t \<and> fst (classifyStep E root x t) = bsSuccess"
    using good by (fastforce simp: eq)
  have status: "classifyStep E root r s = (bs, bss)" "bs \<noteq> bsSuccess"
    using bad bs bss by (auto simp: eq)
  have "classifySteps E root build (pre @ r # post) st =
      Inr (True, failBuild E build r bs bss st)"
    using r status good' by (rule classifySteps_first_bad)
  moreover have "failBuild E build r bs bss st = (build\<lparr>finishedInDB := True\<rparr>, st')"
    using nf st' by (simp add: failBuild_def commit_def sqlFail_def updateFailed_def)
  ultimately have conclude:
    "concludeBuild E build (Some root) st = Inr (build\<lparr>finishedInDB := True\<rparr>, st')"
    by (simp add: concludeBuild_def order)
  have same: "builds st' = builds st"
    by (simp add: st')
  have "createBuild (Suc n) E build st0 =
          Inr (build\<lparr>finishedInDB := True\<rparr>, leaveBuild (newSteps st0) (finishedDrvs st0) st')"
    if "isValidPath E (bdrvPath build)"
      "createStep n E (bdrvPath build) (Some (bid build)) None
              (st0\<lparr>loaded := loaded st0 @ [bid build], nrAdded := Suc (nrAdded st0),
                   newSteps := [], finishedDrvs := []\<rparr>) = Inr (Some root, st1)"
      "forEachStep (piggyback n (createBuild n E)) (iterSteps E (newSteps st1)) st1 = Inr st"
    for n st0 st1
    using createBuild_Suc_valid [OF that] conclude by simp
  moreover have "builds (leaveBuild ns fd st') = builds st" for ns fd
    by (simp add: leaveBuild_def release_def same)
  ultimately show ?thesis
    using eq conclude same by blast
qed


theorem classification_first_bad_step_witness:
  "\<not> finishedInDB (queuedBuild 4 ''/d/arm'') \<and>
   iterSteps armEnv (newSteps armClassify) = [] @ 0 # [] \<and>
   heap armClassify 0 = Some armStep \<and>
   \<not> checkCachedFailure armEnv armStep \<and> \<not> supported armEnv armStep \<and>
   (\<exists>st'. concludeBuild armEnv (queuedBuild 4 ''/d/arm'') (Some 0) armClassify =
             Inr ((queuedBuild 4 ''/d/arm'')\<lparr>finishedInDB := True\<rparr>, st') \<and>
          txns st' = [[CreateBuildStep 0 4 0 [] bssUnsupported,
                       Exec sqlFail [PId 4, PStatus bsUnsupported, PTime 1000, PInt 0]]] \<and>
          map row_buildStatus (dbBuilds st') = [Some bsUnsupported] \<and>
          map row_isCachedBuild (dbBuilds st') = [Some 0] \<and>
          nrBuildsDone st' = 1 \<and> builds st' = [])"
proof -
  let ?b = "queuedBuild 4 ''/d/arm''"
  define bs where "bs = (if checkCachedFailure armEnv armStep
      then (if (0::nat) = 0 then bsFailed else bsDepFailed) else bsUnsupported)"
  define bss where "bss = (if checkCachedFailure armEnv armStep then bssFailed else bssUnsupported)"
  define st' where "st' = armClassify\<lparr>txns := txns armClassify @
                 [[CreateBuildStep 0 (bid ?b) 0 [] bss,
                   Exec ''update Builds set finished = 1, busy = 0, buildStatus = $2, startTime = $3, stopTime = $3, isCachedBuild = $4 where id = $1 and finished = 0''
                     [PId (bid ?b), PStatus bs, PTime (now armEnv),
                      PInt (if bs = bsUnsupported then 0 else 1)]]],
               dbBuilds :=
                 map (\<lambda>row. if row_id row = bid ?b \<and> row_finished row = 0
                       then row\<lparr>row_finished := 1, row_busy := 0, row_buildStatus := Some bs,
                              row_startTime := Some (now armEnv), row_stopTime := Some (now armEnv),
                              row_isCachedBuild := Some (if bs = bsUnsupported then 0 else 1)\<rparr>
                       else row) (dbBuilds armClassify),
               nrBuildsDone := Suc (nrBuildsDone armClassify)\<rparr>"
  have nf: "\<not> finishedInDB ?b"
    by (simp add: queuedBuild_def buildOfRow_def)
  have order: "iterSteps armEnv (newSteps armClassify) = [] @ 0 # []"
    by (simp add: iterSteps_def armClassify_def armState_def emptyState_def)
  have good: "\<forall>x \<in> set []. \<exists>t. heap armClassify x = Some t \<and>
      \<not> checkCachedFailure armEnv t \<and> supported armEnv t"
    by simp
  have r: "heap armClassify 0 = Some armStep"
    by (simp add: armClassify_def armState_def emptyState_def)
  have nc: "\<not> checkCachedFailure armEnv armStep"
    by (simp add: armEnv_def storeEnv_def)
  have ns: "\<not> supported armEnv armStep"
    by (simp add: supported_def armEnv_def storeEnv_def)
  from ns have bad: "checkCachedFailure armEnv armStep \<or> \<not> supported armEnv armStep" ..
  from classification_first_bad_step [OF nf order good r bad bs_def bss_def st'_def]
  have run: "concludeBuild armEnv ?b (Some 0) armClassify = Inr (?b\<lparr>finishedInDB := True\<rparr>, st')"
    by blast
  have "txns st' = [[CreateBuildStep 0 4 0 [] bssUnsupported,
                       Exec sqlFail [PId 4, PStatus bsUnsupported, PTime 1000, PInt 0]]]"
    "map row_buildStatus (dbBuilds st') = [Some bsUnsupported]"
    "map row_isCachedBuild (dbBuilds st') = [Some 0]"
    "nrBuildsDone st' = 1" "builds st' = []"
    using nc
    by (simp_all add: st'_def bs_def bss_def sqlFail_def armClassify_def armState_def
        emptyState_def queuedBuild_def buildOfRow_def queuedRow_def armEnv_def storeEnv_def)
  with nf order r nc ns run show ?thesis
    by (intro conjI exI [where x = st']) simp_all
qed

subsection \<open>What createBuild leaves alone\<close>

lemma guardedRow_refl: "guardedRow r r"
  by (simp add: guardedRow_def)

lemma guardedRow_trans: "guardedRow a b \<Longrightarrow> guardedRow b c \<Longrightarrow> guardedRow a c"
  by (auto simp: guardedRow_def)

lemma guardedRows_refl: "list_all2 guardedRow tbl tbl"
  by (simp add: list_all2_refl guardedRow_refl)

lemma guardedRows_trans:
  "list_all2 guardedRow a b \<Longrightarrow> list_all2 guardedRow b c \<Longrightarrow> list_all2 guardedRow a c"
  by (rule list_all2_trans [where ?P1.0 = guardedRow and ?P2.0 = guardedRow])
     (auto intro: guardedRow_trans)

lemma guardedRows_updateAborted: "list_all2 guardedRow tbl (updateAborted i s t m tbl)"
  by (simp add: updateAborted_def list_all2_map2 list_all2_refl guardedRow_def)

lemma guardedRows_updateFailed: "list_all2 guardedRow tbl (updateFailed i s t c tbl)"
  by (simp add: updateFailed_def list_all2_map2 list_all2_refl guardedRow_def)

lemma guardedRows_updateSucceeded: "list_all2 guardedRow tbl (updateSucceeded i c t1 t2 tbl)"
  by (simp add: updateSucceeded_def list_all2_map2 list_all2_refl guardedRow_def)

lemma coreFrame_refl: "coreFrame [] st st"
  by (simp add: coreFrame_def guardedRows_refl)

lemma coreFrame_trans:
  assumes "coreFrame pre a b" "coreFrame [] b c"
  shows "coreFrame pre a c"
proof -
  from assms obtain n1 n2 l1 l2 where
    t: "txns b = txns a @ n1" "list_all terminalTxn n1"
       "txns c = txns b @ n2" "list_all terminalTxn n2"
    and l: "loaded b = loaded a @ pre @ l1" "working a = working b + mset l1"
       "nrAdded b = nrAdded a + length (pre @ l1)"
       "loaded c = loaded b @ l2" "working b = working c + mset l2"
       "nrAdded c = nrAdded b + length l2"
    unfolding coreFrame_def by auto
  have t': "\<exists>new. txns c = txns a @ new \<and> list_all terminalTxn new"
    using t by (intro exI [where x = "n1 @ n2"]) simp
  have l': "\<exists>l. loaded c = loaded a @ pre @ l \<and> working a = working c + mset l \<and>
      nrAdded c = nrAdded a + length (pre @ l)"
    using l by (intro exI [where x = "l1 @ l2"]) simp
  have g: "list_all2 guardedRow (dbBuilds a) (dbBuilds c)"
    using assms by (auto simp: coreFrame_def intro: guardedRows_trans)
  have s: "subseq (newBuilds c) (newBuilds a)"
    using assms by (auto simp: coreFrame_def intro: subseq_order.trans)
  have "nrBuildsRead c = nrBuildsRead a" "runnable c = runnable a"
    "lastBuildId c = lastBuildId a" "nextId a \<le> nextId c" "nrBuildsDone a \<le> nrBuildsDone c"
    using assms by (auto simp: coreFrame_def)
  with t' l' g s show ?thesis
    unfolding coreFrame_def by (intro conjI)
qed

lemma coreFrame_stepFrame: "stepFrame st st' \<Longrightarrow> coreFrame [] st st'"
  by (simp add: stepFrame_def coreFrame_def guardedRows_refl working_def)

lemma coreFrame_heap:
  "coreFrame pre st (st'\<lparr>heap := h\<rparr>) = coreFrame pre st st'"
  by (simp add: coreFrame_def working_def)


lemma coreFrame_abortGCed: "abortGCed E b st = (b', st') \<Longrightarrow> coreFrame [] st st'"
  by (auto simp: abortGCed_def commit_def coreFrame_def terminalTxn_def working_def
      guardedRows_refl guardedRows_updateAborted split: if_splits)

lemma coreFrame_cachedSuccess: "cachedSuccess E b st = Inr (b', st') \<Longrightarrow> coreFrame [] st st'"
  by (auto simp: cachedSuccess_def readDrv_def commit_def coreFrame_def terminalTxn_def
      working_def guardedRows_updateSucceeded split: option.splits)

lemma classifyStep_status:
  "classifyStep E root r s = (bs, bss) \<Longrightarrow> bs \<noteq> bsSuccess \<Longrightarrow>
   bs \<in> {bsFailed, bsDepFailed, bsUnsupported}"
  by (auto simp: classifyStep_def split: if_splits)

lemma terminalTxn_fail:
  "bs \<in> {bsFailed, bsDepFailed, bsUnsupported} \<Longrightarrow>
   terminalTxn [CreateBuildStep 0 i r [] bss,
     Exec sqlFail [PId i, PStatus bs, PTime tm, PInt (if bs \<noteq> bsUnsupported then 1 else 0)]]"
  unfolding terminalTxn_def
  by (intro disjI2 disjI1 exI [where x = i] exI [where x = r] exI [where x = bs]
      exI [where x = bss] exI [where x = tm]) auto

lemma coreFrame_failBuild:
  "bs \<in> {bsFailed, bsDepFailed, bsUnsupported} \<Longrightarrow> failBuild E b r bs bss st = (b', st') \<Longrightarrow>
   coreFrame [] st st'"
  using terminalTxn_fail [of bs "bid b" r bss "now E"]
  by (auto simp: failBuild_def commit_def coreFrame_def working_def
      guardedRows_refl guardedRows_updateFailed split: if_splits)

lemma coreFrame_classifySteps:
  "classifySteps E root b rs st = Inr (bad, b', st') \<Longrightarrow> coreFrame [] st st'"
proof (induction rs)
  case Nil
  then show ?case by (simp add: coreFrame_refl)
next
  case (Cons r rs)
  then show ?case
    by (auto split: option.splits prod.splits if_splits
        dest: classifyStep_status intro: coreFrame_failBuild)
qed

lemma coreFrame_publish: "publish b root st = (b', st') \<Longrightarrow> coreFrame [] st st'"
  by (auto simp: publish_def coreFrame_def working_def guardedRows_refl split: if_splits)

lemma coreFrame_concludeBuild:
  assumes "concludeBuild E b step st = Inr (b', st')"
  shows "coreFrame [] st st'"
proof (cases step)
  case None
  with assms show ?thesis by (simp add: concludeBuild_def coreFrame_cachedSuccess)
next
  case (Some root)
  with assms obtain bad b1 st1 where
    c: "classifySteps E root b (iterSteps E (newSteps st)) st = Inr (bad, b1, st1)"
    and r: "(b', st') = (if bad then (b1, st1) else publish b1 root st1)"
    by (auto simp: concludeBuild_def split: sum.splits if_splits)
  from c have 1: "coreFrame [] st st1" by (rule coreFrame_classifySteps)
  show ?thesis
  proof (cases bad)
    case True
    with r 1 show ?thesis by simp
  next
    case False
    with r have "publish b1 root st1 = (b', st')" by simp
    then have "coreFrame [] st1 st'" by (rule coreFrame_publish)
    with 1 show ?thesis by (rule coreFrame_trans)
  qed
qed

lemma coreFrame_leaveBuild: "coreFrame pre st st' \<Longrightarrow> coreFrame pre st (leaveBuild ns fd st')"
  by (simp add: leaveBuild_def release_def coreFrame_def working_def)

lemma findBuild_Some:
  "findBuild p xs = Some (b, rest) \<Longrightarrow>
   \<exists>ys zs. xs = ys @ (p, b) # zs \<and> rest = ys @ zs \<and> p \<notin> fst ` set ys"
proof (induction xs arbitrary: rest)
  case Nil
  then show ?case by simp
next
  case (Cons x xs)
  show ?case
  proof (cases "fst x = p")
    case True
    with Cons.prems have "x # xs = [] @ (p, b) # xs \<and> rest = [] @ xs"
      by (cases x) auto
    then show ?thesis by (metis empty_iff image_empty list.set(1))
  next
    case False
    with Cons.prems obtain r where r: "findBuild p xs = Some (b, r)" "rest = x # r"
      by auto
    from Cons.IH [OF r(1)] obtain ys zs where
      "xs = ys @ (p, b) # zs" "r = ys @ zs" "p \<notin> fst ` set ys"
      by blast
    with False r(2) have "x # xs = (x # ys) @ (p, b) # zs \<and> rest = (x # ys) @ zs \<and>
        p \<notin> fst ` set (x # ys)"
      by auto
    then show ?thesis by blast
  qed
qed

lemma findBuild_None: "findBuild p xs = None \<Longrightarrow> p \<notin> fst ` set xs"
  by (induction xs) (auto split: if_splits)

lemma coreFrame_removed:
  assumes "findBuild p (newBuilds st) = Some (b, rest)"
    and "coreFrame [bid b] (st\<lparr>newBuilds := rest\<rparr>) st'"
  shows "coreFrame [] st st'"
proof -
  from findBuild_Some [OF assms(1)] obtain ys zs where
    xs: "newBuilds st = ys @ (p, b) # zs" "rest = ys @ zs"
    by blast
  have "subseq zs ((p, b) # zs)"
    by (rule list_emb_Cons) simp
  then have sub: "subseq rest (newBuilds st)"
    unfolding xs by (intro list_emb_append_mono subseq_order.refl)
  have w: "working st = working (st\<lparr>newBuilds := rest\<rparr>) + {#bid b#}"
    by (simp add: working_def xs)
  from assms(2) obtain l where l: "loaded st' = loaded st @ [bid b] @ l"
    "working (st\<lparr>newBuilds := rest\<rparr>) = working st' + mset l"
    "nrAdded st' = nrAdded st + length ([bid b] @ l)"
    by (auto simp: coreFrame_def)
  have l': "\<exists>l. loaded st' = loaded st @ [] @ l \<and> working st = working st' + mset l \<and>
      nrAdded st' = nrAdded st + length ([] @ l)"
    using l w by (intro exI [where x = "bid b # l"]) simp
  have "subseq (newBuilds st') (newBuilds st)"
    using assms(2) sub by (auto simp: coreFrame_def intro: subseq_order.trans)
  with l' assms(2) show ?thesis
    unfolding coreFrame_def by simp
qed

lemma coreFrame_piggyback:
  assumes f: "\<And>b s b' s'. f b s = Inr (b', s') \<Longrightarrow> coreFrame [bid b] s s'"
  shows "piggyback k f r st = Inr st' \<Longrightarrow> coreFrame [] st st'"
proof (induction k arbitrary: st)
  case 0
  then show ?case by simp
next
  case (Suc k)
  from Suc.prems obtain s where s: "heap st r = Some s"
    by (auto split: option.splits)
  show ?case
  proof (cases "findBuild (drvPath s) (newBuilds st)")
    case None
    with Suc.prems s show ?thesis by (simp add: coreFrame_refl)
  next
    case (Some found)
    obtain b rest where found: "found = (b, rest)" by (cases found)
    with Suc.prems s Some obtain b' st1 where
      run: "f b (st\<lparr>newBuilds := rest\<rparr>) = Inr (b', st1)"
      and loop: "piggyback k f r st1 = Inr st'"
      by (auto split: sum.splits)
    have "coreFrame [] st st1"
      using Some f [OF run] unfolding found by (rule coreFrame_removed)
    then show ?thesis
      using Suc.IH [OF loop] by (rule coreFrame_trans)
  qed
qed

lemma coreFrame_forEachStep:
  assumes g: "\<And>r s s'. g r s = Inr s' \<Longrightarrow> coreFrame [] s s'"
  shows "forEachStep g rs st = Inr st' \<Longrightarrow> coreFrame [] st st'"
proof (induction rs arbitrary: st)
  case Nil
  then show ?case by (simp add: coreFrame_refl)
next
  case (Cons r rs)
  from Cons.prems obtain st1 where "g r st = Inr st1" "forEachStep g rs st1 = Inr st'"
    by (auto split: sum.splits)
  then show ?case
    using g Cons.IH coreFrame_trans by blast
qed

lemma createBuild_Suc_cases:
  assumes "createBuild (Suc n) E build st0 = Inr (b', st')"
  obtains (gc) "\<not> isValidPath E (bdrvPath build)"
      "abortGCed E build (st0\<lparr>loaded := loaded st0 @ [bid build],
         nrAdded := Suc (nrAdded st0)\<rparr>) = (b', st')"
  | (steps) step st1 st2 st3 where "isValidPath E (bdrvPath build)"
      "createStep n E (bdrvPath build) (Some (bid build)) None
         (st0\<lparr>loaded := loaded st0 @ [bid build], nrAdded := Suc (nrAdded st0),
              newSteps := [], finishedDrvs := []\<rparr>) = Inr (step, st1)"
      "forEachStep (piggyback n (createBuild n E)) (iterSteps E (newSteps st1)) st1 = Inr st2"
      "concludeBuild E build step st2 = Inr (b', st3)"
      "st' = leaveBuild (newSteps st0) (finishedDrvs st0) st3"
  using assms by (auto simp: Let_def split: if_splits sum.splits)

lemma coreFrame_enter:
  "coreFrame [i] st (st\<lparr>loaded := loaded st @ [i], nrAdded := Suc (nrAdded st)\<rparr>)"
  by (simp add: coreFrame_def working_def guardedRows_refl)

lemma coreFrame_locals:
  "coreFrame pre st (st'\<lparr>newSteps := ns, finishedDrvs := fd\<rparr>) = coreFrame pre st st'"
  "coreFrame [] (st\<lparr>newSteps := ns, finishedDrvs := fd\<rparr>) st' = coreFrame [] st st'"
  by (simp_all add: coreFrame_def working_def)

lemma ingestFrame_createBuild:
  "createBuild n E build st = Inr (b', st') \<Longrightarrow> ingestFrame build st st'"
proof (induction n arbitrary: build st b' st')
  case 0
  then show ?case by simp
next
  case (Suc n)
  let ?st = "st\<lparr>loaded := loaded st @ [bid build], nrAdded := Suc (nrAdded st)\<rparr>"
  from Suc.prems show ?case
  proof (cases rule: createBuild_Suc_cases)
    case gc
    from coreFrame_enter coreFrame_abortGCed [OF gc(2)]
    have "coreFrame [bid build] st st'" by (rule coreFrame_trans)
    moreover from gc(2) have "newSteps st' = newSteps st" "finishedDrvs st' = finishedDrvs st"
      by (auto simp: abortGCed_def commit_def split: if_splits)
    ultimately show ?thesis by (simp add: ingestFrame_def)
  next
    case (steps step st1 st2 st3)
    have "coreFrame [] ?st st1"
      using stepFrame_createStep [OF steps(2)] coreFrame_stepFrame coreFrame_locals(2) by blast
    moreover have "coreFrame [] st1 st2"
      using steps(3)
    proof (rule coreFrame_forEachStep [rotated])
      fix r s s' assume "piggyback n (createBuild n E) r s = Inr s'"
      then show "coreFrame [] s s'"
      proof (rule coreFrame_piggyback [rotated])
        fix b s b' s' assume "createBuild n E b s = Inr (b', s')"
        then have "ingestFrame b s s'" by (rule Suc.IH)
        then show "coreFrame [bid b] s s'" by (simp add: ingestFrame_def)
      qed
    qed
    moreover note coreFrame_concludeBuild [OF steps(4)]
    ultimately have "coreFrame [bid build] st st3"
      using coreFrame_enter [of "bid build" st] coreFrame_trans by blast
    then have "coreFrame [bid build] st st'"
      unfolding steps(5) by (rule coreFrame_leaveBuild)
    moreover have "newSteps st' = newSteps st" "finishedDrvs st' = finishedDrvs st"
      by (simp_all add: steps(5) leaveBuild_def)
    ultimately show ?thesis by (simp add: ingestFrame_def)
  qed
qed

subsection \<open>The terminal updates\<close>

lemma sql_guards:
  "suffix '' where id = $1 and finished = 0'' sqlAbort"
  "suffix '' where id = $1 and finished = 0'' sqlFail"
  by (simp_all add: sqlAbort_def sqlFail_def suffix_to_prefix)

text \<open>
  C9, as amended. Every transaction that \<^verbatim>\<open>createBuild\<close> commits, for the build itself or
  for a build it takes from the working set, has one of three shapes: the single
  update that aborts a build whose derivation was garbage-collected; the row of the
  failing build step followed by the update that fails the build; the call of
  \<^verbatim>\<open>markSucceededBuild\<close>. The text of both updates ends with the clause
  \<^verbatim>\<open>where id = $1 and finished = 0\<close>, and in the table every row keeps its id and a row
  of a build that was finished already is left as it was.
\<close>

theorem createBuild_terminal_updates:
  assumes "createBuild n E build st = Inr (b', st')"
  shows "(\<exists>new. txns st' = txns st @ new \<and> list_all terminalTxn new) \<and>
         suffix '' where id = $1 and finished = 0'' sqlAbort \<and>
         suffix '' where id = $1 and finished = 0'' sqlFail \<and>
         list_all2 guardedRow (dbBuilds st) (dbBuilds st')"
proof -
  from assms have "ingestFrame build st st'"
    by (rule ingestFrame_createBuild)
  then show ?thesis
    by (simp add: ingestFrame_def coreFrame_def sql_guards)
qed

theorem createBuild_terminal_updates_witness:
  "\<exists>b' st'. createBuild 2 armEnv (queuedBuild 4 ''/d/arm'') armState = Inr (b', st') \<and>
     (\<exists>new. txns st' = txns armState @ new \<and> list_all terminalTxn new) \<and>
     list_all2 guardedRow (dbBuilds armState) (dbBuilds st')"
proof -
  have "committed (createBuild 2 armEnv (queuedBuild 4 ''/d/arm'') armState) \<noteq> None"
    by code_simp
  then obtain b' st' where
    run: "createBuild 2 armEnv (queuedBuild 4 ''/d/arm'') armState = Inr (b', st')"
    by (auto simp: committed_def split: sum.splits)
  from createBuild_terminal_updates [OF run] run show ?thesis
    by blast
qed

text \<open>
  The transaction that fails the unsupported build 4 has two statements: the row of
  the build step and the update of the build.
\<close>

theorem createBuild_two_statements_counterexample:
  "committed (createBuild 2 armEnv (queuedBuild 4 ''/d/arm'') armState) =
     Some [[CreateBuildStep 0 4 0 [] bssUnsupported,
            Exec sqlFail [PId 4, PStatus bsUnsupported, PTime 1000, PInt 0]]]"
  by code_simp

subsection \<open>Calls that return no step, and the result of the classification\<close>

lemma createStep_None:
  assumes "createStep n E p rb rs st = Inr (None, st')"
  shows "newSteps st' = newSteps st \<and> newRunnable st' = newRunnable st"
proof (cases n)
  case 0
  with assms show ?thesis by simp
next
  case (Suc m)
  show ?thesis
  proof (cases "p \<in> set (finishedDrvs st)")
    case True
    with assms Suc show ?thesis by simp
  next
    case False
    with assms Suc obtain a st1 d st2 where
      i: "internStep p rb rs st = Inr (a, True, st1)" and r: "readDrv E p st1 = Inr (d, st2)"
      by (auto split: sum.splits if_splits)
    have same: "newSteps st2 = newSteps st \<and> newRunnable st2 = newRunnable st"
      using i r by (auto simp: readDrv_def split: option.splits elim!: internStep_cases)
    show ?thesis
    proof (cases "allValid E d")
      case True
      with assms Suc False i r same show ?thesis
        by (auto simp: Let_def updStep_def)
    next
      case False
      with assms Suc \<open>p \<notin> set (finishedDrvs st)\<close> i r show ?thesis
        by (auto simp: Let_def finishStep_def split: sum.splits option.splits if_splits)
    qed
  qed
qed


subsection \<open>Derivations whose outputs are all valid\<close>

lemma stepFrame_createDeps_createStep:
  assumes "createDeps (\<lambda>i s. createStep n E i None (Some a) s) a is st = Inr st'"
  shows "stepFrame st st'"
  using assms by (rule stepFrame_createDeps [rotated]) (rule stepFrame_createStep)

text \<open>A call of \<^verbatim>\<open>createStep\<close> that makes a new Step: what the check of the outputs leads
  to.\<close>

lemma createStep_new_step:
  assumes notFin: "p \<notin> set (finishedDrvs st)"
    and new: "steps st p = None \<or> (\<exists>w. steps st p = Some w \<and> heap st w = None)"
    and drv: "readDerivation E p = Some d"
  shows "(allValid E d \<longrightarrow>
            (\<exists>st'. createStep (Suc n) E p rb rs st = Inr (None, st') \<and>
                   finishedDrvs st' = List.insert p (finishedDrvs st) \<and>
                   newSteps st' = newSteps st \<and> newRunnable st' = newRunnable st \<and>
                   heap st' = (heap st)(nextId st := None) \<and>
                   (\<forall>m rb' rs'. createStep (Suc m) E p rb' rs' st' = Inr (None, st')))) \<and>
         (\<not> allValid E d \<longrightarrow>
            (\<forall>res st'. createStep (Suc n) E p rb rs st = Inr (res, st') \<longrightarrow>
               res = Some (nextId st) \<and> nextId st \<in> set (newSteps st')))"
proof (intro conjI impI allI)
  let ?a = "nextId st"
  let ?st1 = "st\<lparr>heap := (heap st)(?a \<mapsto> linkBack rb rs (newStep p)),
                 nextId := Suc ?a, steps := (steps st)(p \<mapsto> ?a)\<rparr>"
  let ?st2 = "?st1\<lparr>drvReads := drvReads ?st1 @ [p]\<rparr>"
  let ?st3 = "updStep ?a (initStep E d) ?st2"
  have i: "internStep p rb rs st = Inr (?a, True, ?st1)"
    using new by (rule internStep_new)
  have r: "readDrv E p ?st1 = Inr (d, ?st2)"
    using drv by (simp add: readDrv_def)
  {
    assume valid: "allValid E d"
    let ?st' = "?st3\<lparr>finishedDrvs := List.insert p (finishedDrvs ?st3),
                      heap := (heap ?st3)(?a := None)\<rparr>"
    have run: "createStep (Suc n) E p rb rs st = Inr (None, ?st')"
      using notFin i r valid by (simp add: Let_def)
    have again: "createStep (Suc m) E p rb' rs' ?st' = Inr (None, ?st')" for m rb' rs'
      by (simp add: updStep_def)
    show "\<exists>st'. createStep (Suc n) E p rb rs st = Inr (None, st') \<and>
                   finishedDrvs st' = List.insert p (finishedDrvs st) \<and>
                   newSteps st' = newSteps st \<and> newRunnable st' = newRunnable st \<and>
                   heap st' = (heap st)(nextId st := None) \<and>
                   (\<forall>m rb' rs'. createStep (Suc m) E p rb' rs' st' = Inr (None, st'))"
      using run again by (intro exI [where x = ?st'] conjI) (simp_all add: updStep_def)
  }
  {
    fix res st'
    assume invalid: "\<not> allValid E d"
      and run: "createStep (Suc n) E p rb rs st = Inr (res, st')"
    let ?st3' = "?st3\<lparr>newSteps := List.insert ?a (newSteps ?st3)\<rparr>"
    from run notFin i r invalid obtain st4 where
      c: "createDeps (\<lambda>i s. createStep n E i None (Some ?a) s) ?a (inputDrvs d) ?st3' = Inr st4"
      and fin: "finishStep ?a st4 = Inr (res, st')"
      by (auto simp: Let_def split: sum.splits)
    from fin show "res = Some (nextId st)"
      by (auto simp: finishStep_def Let_def split: option.splits if_splits)
    have "?a \<in> set (newSteps ?st3')" by simp
    with stepFrame_createDeps_createStep [OF c] stepFrame_finishStep [OF fin]
    show "nextId st \<in> set (newSteps st')"
      by (auto simp: stepFrame_def)
  }
qed

subsection \<open>Steps that are alive stay as they are\<close>

lemma sameCore_refl: "sameCore s s"
  by (simp add: sameCore_def)

lemma sameCore_trans: "sameCore a b \<Longrightarrow> sameCore b c \<Longrightarrow> sameCore a c"
  by (simp add: sameCore_def)

lemma sameCore_linkBack: "sameCore s (linkBack rb rs s)"
  by (simp add: sameCore_def)

lemma preserves_refl: "preserves X st st"
  by (auto simp: preserves_def sameCore_refl)

lemma preserves_trans: "preserves X a b \<Longrightarrow> preserves X b c \<Longrightarrow> preserves X a c"
  unfolding preserves_def by (meson le_trans sameCore_trans)

lemma preserves_mono: "preserves X a b \<Longrightarrow> X \<subseteq> Y \<Longrightarrow> preserves Y a b"
  unfolding preserves_def by blast

lemma preserves_internStep:
  assumes "internStep p rb rs st = Inr (a, isNew, st')" "fresh st"
  shows "preserves {} st st'"
  using assms(1)
proof (cases rule: internStep_cases)
  case (old s)
  then show ?thesis
    by (auto simp: preserves_def sameCore_refl sameCore_linkBack)
next
  case new
  moreover have "heap st (nextId st) = None"
    using assms(2) by (simp add: fresh_def)
  ultimately show ?thesis
    by (auto simp: preserves_def sameCore_refl)
qed

lemma preserves_readDrv: "readDrv E p st = Inr (d, st') \<Longrightarrow> preserves X st st'"
  by (auto simp: readDrv_def preserves_def sameCore_refl split: option.splits)

lemma fresh_readDrv: "readDrv E p st = Inr (d, st') \<Longrightarrow> fresh st \<Longrightarrow> fresh st'"
  by (auto simp: readDrv_def fresh_def split: option.splits)

lemma preserves_updStep: "preserves {a} st (updStep a f st)"
  by (auto simp: preserves_def updStep_def sameCore_refl)

lemma fresh_updStep: "fresh st \<Longrightarrow> fresh (updStep a f st)"
  by (auto simp: fresh_def updStep_def)

lemma preserves_finishStep: "finishStep a st = Inr (r, st') \<Longrightarrow> preserves {a} st st'"
  by (auto simp: finishStep_def preserves_def sameCore_refl Let_def
      split: option.splits if_splits)

lemma fresh_finishStep: "finishStep a st = Inr (r, st') \<Longrightarrow> fresh st \<Longrightarrow> fresh st'"
  by (auto simp: finishStep_def fresh_def Let_def split: option.splits if_splits)

lemma preserves_createDeps:
  assumes f: "\<And>i s r s'. fresh s \<Longrightarrow> f i s = Inr (r, s') \<Longrightarrow> fresh s' \<and> preserves {} s s'"
  shows "fresh st \<Longrightarrow> createDeps f step is st = Inr st' \<Longrightarrow>
         fresh st' \<and> preserves {step} st st'"
proof (induction "is" arbitrary: st)
  case Nil
  then show ?case by (simp add: preserves_refl)
next
  case (Cons i "is")
  from Cons.prems obtain r s1 where run: "f i st = Inr (r, s1)"
    by (auto split: sum.splits)
  from f [OF Cons.prems(1) run] have s1: "fresh s1" "preserves {step} st s1"
    by (auto intro: preserves_mono)
  show ?case
  proof (cases r)
    case None
    with Cons.prems run have "createDeps f step is s1 = Inr st'" by simp
    from Cons.IH [OF s1(1) this] s1(2) show ?thesis
      by (auto intro: preserves_trans)
  next
    case (Some dep)
    let ?s2 = "updStep step (\<lambda>s. s\<lparr>deps := List.insert dep (deps s)\<rparr>) s1"
    from Some Cons.prems run have "createDeps f step is ?s2 = Inr st'" by simp
    from Cons.IH [OF fresh_updStep [OF s1(1)] this] s1(2) show ?thesis
      by (meson preserves_trans preserves_updStep)
  qed
qed

lemma createStep_preserves:
  "fresh st \<Longrightarrow> createStep n E p rb rs st = Inr (res, st') \<Longrightarrow>
   fresh st' \<and> preserves {} st st'"
proof (induction n arbitrary: p rb rs st res st')
  case 0
  then show ?case by simp
next
  case (Suc n)
  show ?case
  proof (cases "p \<in> set (finishedDrvs st)")
    case True
    with Suc.prems show ?thesis by (simp add: preserves_refl)
  next
    case False
    with Suc.prems obtain a isNew st1 where i: "internStep p rb rs st = Inr (a, isNew, st1)"
      by (auto split: sum.splits)
    note f1 = internStep_fresh [OF i Suc.prems(1)]
    note p1 = preserves_internStep [OF i Suc.prems(1)]
    show ?thesis
    proof (cases isNew)
      case False
      with Suc.prems \<open>p \<notin> set (finishedDrvs st)\<close> i f1 p1 show ?thesis by simp
    next
      case True
      with i have a: "a = nextId st"
        by (auto elim: internStep_cases)
      with Suc.prems(1) have dead: "heap st a = None"
        by (simp add: fresh_def)
      from True Suc.prems \<open>p \<notin> set (finishedDrvs st)\<close> i obtain d st2 where
        r: "readDrv E p st1 = Inr (d, st2)"
        by (auto split: sum.splits)
      let ?st3 = "updStep a (initStep E d) st2"
      have f3: "fresh ?st3"
        using f1 fresh_readDrv [OF r] fresh_updStep by blast
      have p3: "preserves {a} st ?st3"
        using p1 preserves_readDrv [OF r, of "{}"] preserves_updStep [of a st2]
        by (meson empty_subsetI preserves_mono preserves_trans)
      have final: "fresh st' \<and> preserves {a} st st'"
      proof (cases "allValid E d")
        case True
        with Suc.prems \<open>p \<notin> set (finishedDrvs st)\<close> i \<open>isNew\<close> r
        have st': "st' = ?st3\<lparr>finishedDrvs := List.insert p (finishedDrvs ?st3),
                          heap := (heap ?st3)(a := None)\<rparr>"
          by (simp add: Let_def)
        have "fresh st'"
          using f3 unfolding st' by (auto simp: fresh_def)
        moreover have "preserves {a} ?st3 st'"
          unfolding st' by (auto simp: preserves_def sameCore_refl)
        ultimately show ?thesis
          using p3 preserves_trans by blast
      next
        case False
        let ?st3' = "?st3\<lparr>newSteps := List.insert a (newSteps ?st3)\<rparr>"
        from False Suc.prems \<open>p \<notin> set (finishedDrvs st)\<close> i \<open>isNew\<close> r obtain st4 where
          c: "createDeps (\<lambda>i s. createStep n E i None (Some a) s) a (inputDrvs d) ?st3' = Inr st4"
          and fin: "finishStep a st4 = Inr (res, st')"
          by (auto simp: Let_def split: sum.splits)
        have f3': "fresh ?st3'"
          using f3 by (simp add: fresh_def)
        have p3': "preserves {a} st ?st3'"
          using p3 by (simp add: preserves_def)
        have "fresh st4 \<and> preserves {a} ?st3' st4"
          using f3' c by (rule preserves_createDeps [rotated]) (rule Suc.IH)
        with p3' fresh_finishStep [OF fin] preserves_finishStep [OF fin] show ?thesis
          by (meson preserves_trans)
      qed
      with dead show ?thesis
        unfolding preserves_def by (metis insertE option.distinct(1))
    qed
  qed
qed

lemma createDeps_rel:
  assumes refl: "\<And>s. R s s" and trans: "\<And>a b c. R a b \<Longrightarrow> R b c \<Longrightarrow> R a c"
    and f: "\<And>i s r s'. f i s = Inr (r, s') \<Longrightarrow> R s s'"
    and upd: "\<And>s g. R s (updStep step g s)"
  shows "createDeps f step is st = Inr st' \<Longrightarrow> R st st'"
proof (induction "is" arbitrary: st)
  case Nil
  then show ?case by (simp add: refl)
next
  case (Cons i "is")
  from Cons.prems obtain r s1 where run: "f i st = Inr (r, s1)"
    by (auto split: sum.splits)
  show ?case
  proof (cases r)
    case None
    with Cons.prems run have "createDeps f step is s1 = Inr st'" by simp
    with Cons.IH f [OF run] show ?thesis by (blast intro: trans)
  next
    case (Some dep)
    with Cons.prems run
    have "createDeps f step is (updStep step (\<lambda>s. s\<lparr>deps := List.insert dep (deps s)\<rparr>) s1) = Inr st'"
      by simp
    with Cons.IH f [OF run] upd show ?thesis by (blast intro: trans)
  qed
qed

lemma newOnly_refl: "newOnly st st"
  by (simp add: newOnly_def)

lemma newOnly_trans: "newOnly a b \<Longrightarrow> newOnly b c \<Longrightarrow> newOnly a c"
  unfolding newOnly_def by (auto simp: subset_iff)

lemma newOnly_internStep: "internStep p rb rs st = Inr (a, isNew, st') \<Longrightarrow> newOnly st st'"
  by (erule internStep_cases) (auto simp: newOnly_def)

lemma newOnly_readDrv: "readDrv E p st = Inr (d, st') \<Longrightarrow> newOnly st st'"
  by (auto simp: readDrv_def newOnly_def split: option.splits)

lemma newOnly_updStep: "newOnly st (updStep a f st)"
  by (simp add: newOnly_def updStep_def)

lemma createStep_newOnly:
  "createStep n E p rb rs st = Inr (res, st') \<Longrightarrow> newOnly st st'"
proof (induction n arbitrary: p rb rs st res st')
  case 0
  then show ?case by simp
next
  case (Suc n)
  show ?case
  proof (cases "p \<in> set (finishedDrvs st)")
    case True
    with Suc.prems show ?thesis by (simp add: newOnly_refl)
  next
    case False
    with Suc.prems obtain a isNew st1 where i: "internStep p rb rs st = Inr (a, isNew, st1)"
      by (auto split: sum.splits)
    note n1 = newOnly_internStep [OF i]
    show ?thesis
    proof (cases isNew)
      case False
      with Suc.prems \<open>p \<notin> set (finishedDrvs st)\<close> i n1 show ?thesis by simp
    next
      case True
      with i have a: "a = nextId st" "nextId st1 = Suc (nextId st)"
        by (auto elim: internStep_cases)
      from True Suc.prems \<open>p \<notin> set (finishedDrvs st)\<close> i obtain d st2 where
        r: "readDrv E p st1 = Inr (d, st2)"
        by (auto split: sum.splits)
      let ?st3 = "updStep a (initStep E d) st2"
      have n3: "newOnly st ?st3"
        using n1 newOnly_readDrv [OF r] newOnly_updStep newOnly_trans by blast
      have next3: "nextId ?st3 = Suc (nextId st)"
        using r a by (auto simp: readDrv_def updStep_def split: option.splits)
      show ?thesis
      proof (cases "allValid E d")
        case True
        with Suc.prems \<open>p \<notin> set (finishedDrvs st)\<close> i \<open>isNew\<close> r
        have "st' = ?st3\<lparr>finishedDrvs := List.insert p (finishedDrvs ?st3),
                          heap := (heap ?st3)(a := None)\<rparr>"
          by (simp add: Let_def)
        with n3 show ?thesis by (simp add: newOnly_def)
      next
        case False
        let ?st3' = "?st3\<lparr>newSteps := List.insert a (newSteps ?st3)\<rparr>"
        from False Suc.prems \<open>p \<notin> set (finishedDrvs st)\<close> i \<open>isNew\<close> r obtain st4 where
          c: "createDeps (\<lambda>i s. createStep n E i None (Some a) s) a (inputDrvs d) ?st3' = Inr st4"
          and fin: "finishStep a st4 = Inr (res, st')"
          by (auto simp: Let_def split: sum.splits)
        have n3': "newOnly st ?st3'"
          using n3 next3 a by (auto simp: newOnly_def)
        have n4: "newOnly ?st3' st4"
          using c
          by (rule createDeps_rel [where R = newOnly, rotated 4])
             (auto intro: newOnly_refl newOnly_trans newOnly_updStep Suc.IH)
        have n4': "newOnly st st4"
          using n3' n4 by (rule newOnly_trans)
        have "nextId st \<le> a" "a < nextId st4"
          using n4 next3 a by (simp_all add: newOnly_def)
        with fin n4' show ?thesis
          by (auto simp: finishStep_def newOnly_def Let_def split: option.splits if_splits)
      qed
    qed
  qed
qed

lemma piggyback_rel:
  assumes refl: "\<And>s. R s s" and trans: "\<And>a b c. R a b \<Longrightarrow> R b c \<Longrightarrow> R a c"
    and f: "\<And>b s b' s'. f b s = Inr (b', s') \<Longrightarrow> R s s'"
    and nb: "\<And>s x. R s (s\<lparr>newBuilds := x\<rparr>)"
  shows "piggyback k f r st = Inr st' \<Longrightarrow> R st st'"
proof (induction k arbitrary: st)
  case 0
  then show ?case by simp
next
  case (Suc k)
  from Suc.prems obtain s where s: "heap st r = Some s"
    by (auto split: option.splits)
  show ?case
  proof (cases "findBuild (drvPath s) (newBuilds st)")
    case None
    with Suc.prems s show ?thesis by (simp add: refl)
  next
    case (Some found)
    obtain b rest where found: "found = (b, rest)" by (cases found)
    with Suc.prems s Some obtain b' st1 where
      run: "f b (st\<lparr>newBuilds := rest\<rparr>) = Inr (b', st1)"
      and loop: "piggyback k f r st1 = Inr st'"
      by (auto split: sum.splits)
    from nb f [OF run] Suc.IH [OF loop] show ?thesis
      by (blast intro: trans)
  qed
qed

lemma forEachStep_rel:
  assumes refl: "\<And>s. R s s" and trans: "\<And>a b c. R a b \<Longrightarrow> R b c \<Longrightarrow> R a c"
    and g: "\<And>r s s'. g r s = Inr s' \<Longrightarrow> R s s'"
  shows "forEachStep g rs st = Inr st' \<Longrightarrow> R st st'"
proof (induction rs arbitrary: st)
  case Nil
  then show ?case by (simp add: refl)
next
  case (Cons r rs)
  from Cons.prems obtain st1 where "g r st = Inr st1" "forEachStep g rs st1 = Inr st'"
    by (auto split: sum.splits)
  with g Cons.IH show ?case by (blast intro: trans)
qed

lemma concludeBuild_heap:
  assumes "concludeBuild E b step st = Inr (b', st')"
  shows "heap st' = heap st \<and> nextId st' = nextId st \<and> steps st' = steps st \<and>
         newSteps st' = newSteps st \<and> newRunnable st' = newRunnable st \<and>
         newBuilds st' = newBuilds st \<and> finishedDrvs st' = finishedDrvs st"
proof (cases step)
  case None
  with assms show ?thesis
    by (auto simp: concludeBuild_def cachedSuccess_def readDrv_def commit_def
        split: option.splits)
next
  case (Some root)
  have cl: "classifySteps E root b rs st = Inr (bad, b1, st1) \<Longrightarrow>
      heap st1 = heap st \<and> nextId st1 = nextId st \<and> steps st1 = steps st \<and>
      newSteps st1 = newSteps st \<and> newRunnable st1 = newRunnable st \<and>
      newBuilds st1 = newBuilds st \<and> finishedDrvs st1 = finishedDrvs st" for rs bad b1 st1
    by (induction rs)
       (auto simp: failBuild_def commit_def split: option.splits prod.splits if_splits)
  from Some assms show ?thesis
    by (auto simp: concludeBuild_def publish_def split: sum.splits if_splits dest!: cl)
qed

lemma abortGCed_heap:
  "abortGCed E b st = (b', st') \<Longrightarrow> heap st' = heap st \<and> nextId st' = nextId st \<and>
     steps st' = steps st"
  by (auto simp: abortGCed_def commit_def split: if_splits)

lemma fresh_release: "fresh st \<Longrightarrow> fresh (release cands roots st)"
  by (simp add: fresh_def release_def)

lemma preserves_release:
  assumes "preserves {} st0 st" "fresh st0" "\<forall>c \<in> set cands. nextId st0 \<le> c"
  shows "preserves {} st0 (release cands roots st)"
proof -
  have "a \<notin> set cands" if "heap st0 a = Some s" for a s
    using that assms(2,3) by (force simp: fresh_def)
  with assms(1) show ?thesis
    by (auto simp: preserves_def release_def)
qed

lemma okRel_refl: "okRel s s"
  by (simp add: okRel_def preserves_refl)

lemma okRel_trans: "okRel a b \<Longrightarrow> okRel b c \<Longrightarrow> okRel a c"
  unfolding okRel_def by (blast intro: preserves_trans)

lemma okRel_newBuilds: "okRel s (s\<lparr>newBuilds := x\<rparr>)"
  by (simp add: okRel_def fresh_def preserves_def sameCore_refl)

lemma createBuild_preserves:
  "createBuild n E build st = Inr (b', st') \<Longrightarrow> okRel st st'"
proof (induction n arbitrary: build st b' st')
  case 0
  then show ?case by simp
next
  case (Suc n)
  let ?st = "st\<lparr>loaded := loaded st @ [bid build], nrAdded := Suc (nrAdded st)\<rparr>"
  let ?st0 = "?st\<lparr>newSteps := [], finishedDrvs := []\<rparr>"
  from Suc.prems show ?case
  proof (cases rule: createBuild_Suc_cases)
    case gc
    from abortGCed_heap [OF gc(2)] show ?thesis
      by (simp add: okRel_def fresh_def preserves_def sameCore_refl)
  next
    case (steps step st1 st2 st3)
    show ?thesis
      unfolding okRel_def
    proof
      assume fr: "fresh st"
      then have fr0: "fresh ?st0" by (simp add: fresh_def)
      from createStep_preserves [OF fr0 steps(2)]
      have 1: "fresh st1" "preserves {} st st1"
        by (simp_all add: preserves_def)
      have "okRel st1 st2"
        using steps(3)
      proof (rule forEachStep_rel [where R = okRel, rotated 3])
        fix r s s' assume "piggyback n (createBuild n E) r s = Inr s'"
        then show "okRel s s'"
          by (rule piggyback_rel [where R = okRel, rotated 4])
             (auto intro: okRel_refl okRel_trans okRel_newBuilds Suc.IH)
      qed (auto intro: okRel_refl okRel_trans)
      with 1 have 2: "fresh st2" "preserves {} st st2"
        by (auto simp: okRel_def intro: preserves_trans)
      note h = concludeBuild_heap [OF steps(4)]
      from 2 h have 3: "fresh st3" "preserves {} st st3"
        by (simp_all add: fresh_def preserves_def)
      from createStep_newOnly [OF steps(2)]
      have "\<forall>c \<in> set (newSteps st1). nextId st \<le> c"
        by (auto simp: newOnly_def)
      moreover have "newSteps st2 = newSteps st1"
        using steps(3)
        by (rule forEachStep_rel [where R = "\<lambda>s s'. newSteps s' = newSteps s", rotated 3])
           (auto dest!: piggyback_rel [where R = "\<lambda>s s'. newSteps s' = newSteps s", rotated 4]
                 dest: ingestFrame_createBuild simp: ingestFrame_def)
      ultimately have cands: "\<forall>c \<in> set (newSteps st3). nextId st \<le> c"
        using h by simp
      have "fresh st'"
        using 3(1) by (simp add: steps(5) leaveBuild_def fresh_release fresh_def release_def)
      moreover have "preserves {} st st'"
        using preserves_release [OF 3(2) fr cands]
        by (simp add: steps(5) leaveBuild_def preserves_def)
      ultimately show "fresh st' \<and> preserves {} st st'" ..
    qed
  qed
qed

subsection \<open>The piggyback pass\<close>

lemma subseq_set: "subseq xs ys \<Longrightarrow> set xs \<subseteq> set ys"
  by (auto elim: list_emb_set)

lemma coreFrame_piggyback_createBuild:
  assumes "piggyback k (createBuild n E) r st = Inr st'"
  shows "coreFrame [] st st'"
  using assms
proof (rule coreFrame_piggyback [rotated])
  fix b s b' s' assume "createBuild n E b s = Inr (b', s')"
  then have "ingestFrame b s s'" by (rule ingestFrame_createBuild)
  then show "coreFrame [bid b] s s'" by (simp add: ingestFrame_def)
qed

lemma coreFrame_piggyback_pass:
  assumes "forEachStep (piggyback k (createBuild n E)) rs st = Inr st'"
  shows "coreFrame [] st st'"
  using assms
  by (rule coreFrame_forEachStep [rotated]) (rule coreFrame_piggyback_createBuild)

lemma okRel_piggyback:
  assumes "piggyback k (createBuild n E) r st = Inr st'"
  shows "okRel st st'"
  using assms
  by (rule piggyback_rel [where R = okRel, rotated 4])
     (auto intro: okRel_refl okRel_trans okRel_newBuilds createBuild_preserves)

lemma okRel_piggyback_pass:
  assumes "forEachStep (piggyback k (createBuild n E)) rs st = Inr st'"
  shows "okRel st st'"
  using assms
  by (rule forEachStep_rel [where R = okRel, rotated 3])
     (auto intro: okRel_refl okRel_trans okRel_piggyback)

lemma piggyback_done:
  "piggyback k f r st = Inr st' \<Longrightarrow>
   \<exists>s. heap st' r = Some s \<and> drvPath s \<notin> fst ` set (newBuilds st')"
proof (induction k arbitrary: st)
  case 0
  then show ?case by simp
next
  case (Suc k)
  from Suc.prems obtain s where s: "heap st r = Some s"
    by (auto split: option.splits)
  show ?case
  proof (cases "findBuild (drvPath s) (newBuilds st)")
    case None
    with Suc.prems s findBuild_None [OF None] show ?thesis by simp
  next
    case (Some found)
    with Suc.prems s obtain st1 where "piggyback k f r st1 = Inr st'"
      by (auto split: sum.splits prod.splits)
    then show ?thesis by (rule Suc.IH)
  qed
qed

lemma piggyback_pass_keys:
  "fresh st \<Longrightarrow> forEachStep (piggyback k (createBuild n E)) rs st = Inr st' \<Longrightarrow>
   \<forall>r \<in> set rs. \<forall>s. heap st r = Some s \<longrightarrow> drvPath s \<notin> fst ` set (newBuilds st')"
proof (induction rs arbitrary: st)
  case Nil
  then show ?case by simp
next
  case (Cons r rs)
  from Cons.prems obtain st1 where
    one: "piggyback k (createBuild n E) r st = Inr st1"
    and rest: "forEachStep (piggyback k (createBuild n E)) rs st1 = Inr st'"
    by (auto split: sum.splits)
  from okRel_piggyback [OF one] Cons.prems(1)
  have f1: "fresh st1" and p1: "preserves {} st st1"
    by (auto simp: okRel_def)
  have same: "\<exists>s1. heap st1 x = Some s1 \<and> drvPath s1 = drvPath s" if "heap st x = Some s" for x s
    using p1 that by (fastforce simp: preserves_def sameCore_def)
  from coreFrame_piggyback_pass [OF rest]
  have sub: "set (newBuilds st') \<subseteq> set (newBuilds st1)"
    by (auto simp: coreFrame_def dest: subseq_set)
  show ?case
  proof (intro ballI allI impI)
    fix x s assume x: "x \<in> set (r # rs)" and s: "heap st x = Some s"
    from same [OF s] obtain s1 where s1: "heap st1 x = Some s1" "drvPath s1 = drvPath s"
      by blast
    show "drvPath s \<notin> fst ` set (newBuilds st')"
    proof (cases "x = r")
      case True
      from piggyback_done [OF one] s1 True have "drvPath s \<notin> fst ` set (newBuilds st1)"
        by auto
      with sub show ?thesis by blast
    next
      case False
      with x have "x \<in> set rs" by simp
      with Cons.IH [OF f1 rest] s1(1) have "drvPath s1 \<notin> fst ` set (newBuilds st')"
        by blast
      with s1(2) show ?thesis by simp
    qed
  qed
qed

lemma shared_scenario:
  "observe (createBuild 5 sharedEnv (queuedBuild 5 ''/d/A'') sharedState) [0, 1] =
     Some (False, Some 0, [(6, Some 1), (5, Some 0)], [5, 6], [],
           [Some (''/d/A'', [5], [], [1], True), Some (''/d/C'', [6], [0], [], True)])"
  by code_simp

text \<open>
  C8, as amended. \<^verbatim>\<open>createBuild\<close> has passed the test of the derivation path, and
  \<^verbatim>\<open>createStep\<close> has returned with the new steps \<open>newSteps st1\<close>. When the call returns, no
  build of the working set has the derivation path of one of these steps; the working
  set has only lost builds, and the builds it lost are the builds that were loaded
  during the call, after the build itself. In the scenario of the two builds, after
  build 5 is ingested the Step of \<^verbatim>\<open>/d/C\<close> has the back-references \<open>builds = [6]\<close> and
  \<open>rdeps = [0]\<close>, where 0 is the Step of \<^verbatim>\<open>/d/A\<close>, which has \<open>builds = [5]\<close>: a Step only
  refers back to the builds of which it is the top-level step.
\<close>

theorem createBuild_piggyback:
  assumes fr: "fresh st"
    and run: "createBuild (Suc n) E build st = Inr (b', st')"
    and valid: "isValidPath E (bdrvPath build)"
    and cs: "createStep n E (bdrvPath build) (Some (bid build)) None
               (st\<lparr>loaded := loaded st @ [bid build], nrAdded := Suc (nrAdded st),
                   newSteps := [], finishedDrvs := []\<rparr>) = Inr (step, st1)"
  shows "(\<forall>r \<in> set (newSteps st1). \<forall>s. heap st1 r = Some s \<longrightarrow>
            drvPath s \<notin> fst ` set (newBuilds st')) \<and>
         subseq (newBuilds st') (newBuilds st) \<and>
         (\<exists>l. loaded st' = loaded st @ bid build # l \<and> working st = working st' + mset l) \<and>
         map_option drvPath
           (stepIn (createBuild 5 sharedEnv (queuedBuild 5 ''/d/A'') sharedState) 0)
           = Some ''/d/A'' \<and>
         map_option sbuilds
           (stepIn (createBuild 5 sharedEnv (queuedBuild 5 ''/d/A'') sharedState) 0)
           = Some [5] \<and>
         map_option drvPath
           (stepIn (createBuild 5 sharedEnv (queuedBuild 5 ''/d/A'') sharedState) 1)
           = Some ''/d/C'' \<and>
         map_option sbuilds
           (stepIn (createBuild 5 sharedEnv (queuedBuild 5 ''/d/A'') sharedState) 1)
           = Some [6] \<and>
         map_option rdeps
           (stepIn (createBuild 5 sharedEnv (queuedBuild 5 ''/d/A'') sharedState) 1)
           = Some [0]"
proof -
  let ?st0 = "st\<lparr>loaded := loaded st @ [bid build], nrAdded := Suc (nrAdded st),
                   newSteps := [], finishedDrvs := []\<rparr>"
  have "\<exists>st2 st3.
      forEachStep (piggyback n (createBuild n E)) (iterSteps E (newSteps st1)) st1 = Inr st2 \<and>
      concludeBuild E build step st2 = Inr (b', st3) \<and>
      st' = leaveBuild (newSteps st) (finishedDrvs st) st3"
    using run
  proof (cases rule: createBuild_Suc_cases)
    case gc
    with valid show ?thesis by simp
  next
    case (steps step' st1' st2 st3)
    with cs have "step' = step" "st1' = st1" by simp_all
    with steps show ?thesis by blast
  qed
  then obtain st2 st3 where
    pass: "forEachStep (piggyback n (createBuild n E)) (iterSteps E (newSteps st1)) st1 = Inr st2"
    and conclude: "concludeBuild E build step st2 = Inr (b', st3)"
    and st': "st' = leaveBuild (newSteps st) (finishedDrvs st) st3"
    by blast
  from fr have "fresh ?st0" by (simp add: fresh_def)
  with cs have "fresh st1" by (auto dest: createStep_preserves)
  from piggyback_pass_keys [OF this pass]
  have "\<forall>r \<in> set (newSteps st1). \<forall>s. heap st1 r = Some s \<longrightarrow>
            drvPath s \<notin> fst ` set (newBuilds st2)"
    by (simp add: iterSteps_def)
  moreover have "newBuilds st' = newBuilds st2"
    using concludeBuild_heap [OF conclude] by (simp add: st' leaveBuild_def release_def)
  ultimately have keys: "\<forall>r \<in> set (newSteps st1). \<forall>s. heap st1 r = Some s \<longrightarrow>
            drvPath s \<notin> fst ` set (newBuilds st')"
    by simp
  from ingestFrame_createBuild [OF run]
  have frame: "subseq (newBuilds st') (newBuilds st)"
    "\<exists>l. loaded st' = loaded st @ bid build # l \<and> working st = working st' + mset l"
    by (auto simp: ingestFrame_def coreFrame_def)
  have scenario:
    "map_option drvPath
       (stepIn (createBuild 5 sharedEnv (queuedBuild 5 ''/d/A'') sharedState) 0) = Some ''/d/A''"
    "map_option sbuilds
       (stepIn (createBuild 5 sharedEnv (queuedBuild 5 ''/d/A'') sharedState) 0) = Some [5]"
    "map_option drvPath
       (stepIn (createBuild 5 sharedEnv (queuedBuild 5 ''/d/A'') sharedState) 1) = Some ''/d/C''"
    "map_option sbuilds
       (stepIn (createBuild 5 sharedEnv (queuedBuild 5 ''/d/A'') sharedState) 1) = Some [6]"
    "map_option rdeps
       (stepIn (createBuild 5 sharedEnv (queuedBuild 5 ''/d/A'') sharedState) 1) = Some [0]"
    using shared_scenario
    by (auto simp: observe_def stepIn_def split: sum.splits)
  from keys frame scenario show ?thesis by (intro conjI)
qed

theorem createBuild_piggyback_witness:
  "fresh sharedState \<and> isValidPath sharedEnv (bdrvPath (queuedBuild 5 ''/d/A'')) \<and>
   (\<exists>b' st' step st1.
      createBuild (Suc 4) sharedEnv (queuedBuild 5 ''/d/A'') sharedState = Inr (b', st') \<and>
      createStep 4 sharedEnv (bdrvPath (queuedBuild 5 ''/d/A''))
        (Some (bid (queuedBuild 5 ''/d/A''))) None
        (sharedState\<lparr>loaded := loaded sharedState @ [bid (queuedBuild 5 ''/d/A'')],
           nrAdded := Suc (nrAdded sharedState), newSteps := [], finishedDrvs := []\<rparr>)
        = Inr (step, st1) \<and>
      subseq (newBuilds st') (newBuilds sharedState) \<and>
      (\<exists>l. loaded st' = loaded sharedState @ bid (queuedBuild 5 ''/d/A'') # l \<and>
           working sharedState = working st' + mset l))"
proof -
  let ?b = "queuedBuild 5 ''/d/A''"
  let ?st0 = "sharedState\<lparr>loaded := loaded sharedState @ [bid ?b],
           nrAdded := Suc (nrAdded sharedState), newSteps := [], finishedDrvs := []\<rparr>"
  have fr: "fresh sharedState"
    by (simp add: fresh_def sharedState_def emptyState_def)
  have valid: "isValidPath sharedEnv (bdrvPath ?b)"
    by (simp add: sharedEnv_def storeEnv_def queuedBuild_def buildOfRow_def queuedRow_def)
  from shared_scenario obtain b' st' where "createBuild 5 sharedEnv ?b sharedState = Inr (b', st')"
    by (auto simp: observe_def split: sum.splits)
  then have run: "createBuild (Suc 4) sharedEnv ?b sharedState = Inr (b', st')"
    by simp
  have "case createStep 4 sharedEnv (bdrvPath ?b) (Some (bid ?b)) None ?st0 of
          Inr r \<Rightarrow> True | Inl e \<Rightarrow> False"
    by code_simp
  then obtain step st1 where
    cs: "createStep 4 sharedEnv (bdrvPath ?b) (Some (bid ?b)) None ?st0 = Inr (step, st1)"
    by (auto split: sum.splits)
  from createBuild_piggyback [OF fr run valid cs]
  have "subseq (newBuilds st') (newBuilds sharedState)"
    "\<exists>l. loaded st' = loaded sharedState @ bid ?b # l \<and>
         working sharedState = working st' + mset l"
    by blast+
  with fr valid run cs show ?thesis by blast
qed

text \<open>
  In the scenario the Step of \<^verbatim>\<open>/d/C\<close> does not refer back to build 5: it was reached from
  build 5 as a dependency, and the recursive call passes no referring build.
\<close>

theorem createBuild_shared_counterexample:
  "map_option drvPath
     (stepIn (createBuild 5 sharedEnv (queuedBuild 5 ''/d/A'') sharedState) 1) = Some ''/d/C'' \<and>
   map_option (\<lambda>s. 5 \<in> set (sbuilds s))
     (stepIn (createBuild 5 sharedEnv (queuedBuild 5 ''/d/A'') sharedState) 1) = Some False \<and>
   map_option (\<lambda>s. set (sbuilds s))
     (stepIn (createBuild 5 sharedEnv (queuedBuild 5 ''/d/A'') sharedState) 1) = Some {6}"
  using shared_scenario
  by (auto simp: observe_def stepIn_def split: sum.splits)

subsection \<open>Initialised Steps depend on initialised Steps\<close>




lemma liveCreated_heap: "heap st' = heap st \<Longrightarrow> liveCreated st' = liveCreated st"
  by (simp add: liveCreated_def fun_eq_iff)
























subsection \<open>The published build\<close>






subsection \<open>Steps are initialised before they are runnable\<close>

lemma noResurrect_refl: "noResurrect st st"
  by (simp add: noResurrect_def)

lemma noResurrect_trans: "noResurrect a b \<Longrightarrow> noResurrect b c \<Longrightarrow> noResurrect a c"
  unfolding noResurrect_def by (meson le_trans less_le_trans)

lemma noResurrect_internStep:
  "internStep p rb rs st = Inr (a, isNew, st') \<Longrightarrow> noResurrect st st'"
  by (erule internStep_cases) (auto simp: noResurrect_def)

lemma noResurrect_updStep: "noResurrect st (updStep a f st)"
  by (simp add: noResurrect_def updStep_def)

lemma noResurrect_finishStep: "finishStep a st = Inr (r, st') \<Longrightarrow> noResurrect st st'"
  by (auto simp: finishStep_def noResurrect_def Let_def split: option.splits if_splits)

lemma createStep_noResurrect:
  "createStep n E p rb rs st = Inr (res, st') \<Longrightarrow> noResurrect st st'"
proof (induction n arbitrary: p rb rs st res st')
  case 0
  then show ?case by simp
next
  case (Suc n)
  show ?case
  proof (cases "p \<in> set (finishedDrvs st)")
    case True
    with Suc.prems show ?thesis by (simp add: noResurrect_refl)
  next
    case False
    with Suc.prems obtain a isNew st1 where i: "internStep p rb rs st = Inr (a, isNew, st1)"
      by (auto split: sum.splits)
    note n1 = noResurrect_internStep [OF i]
    show ?thesis
    proof (cases isNew)
      case False
      with Suc.prems \<open>p \<notin> set (finishedDrvs st)\<close> i n1 show ?thesis by simp
    next
      case True
      from True Suc.prems \<open>p \<notin> set (finishedDrvs st)\<close> i obtain d st2 where
        r: "readDrv E p st1 = Inr (d, st2)"
        by (auto split: sum.splits)
      then have st2: "st2 = st1\<lparr>drvReads := drvReads st1 @ [p]\<rparr>"
        by (auto simp: readDrv_def split: option.splits)
      let ?st3 = "updStep a (initStep E d) st2"
      have n3: "noResurrect st ?st3"
        using n1 by (simp add: st2 noResurrect_def updStep_def)
      show ?thesis
      proof (cases "allValid E d")
        case True
        with Suc.prems \<open>p \<notin> set (finishedDrvs st)\<close> i \<open>isNew\<close> r
        have "st' = ?st3\<lparr>finishedDrvs := List.insert p (finishedDrvs ?st3),
                          heap := (heap ?st3)(a := None)\<rparr>"
          by (simp add: Let_def)
        with n3 show ?thesis by (simp add: noResurrect_def)
      next
        case False
        let ?st3' = "?st3\<lparr>newSteps := List.insert a (newSteps ?st3)\<rparr>"
        from False Suc.prems \<open>p \<notin> set (finishedDrvs st)\<close> i \<open>isNew\<close> r obtain st4 where
          c: "createDeps (\<lambda>i s. createStep n E i None (Some a) s) a (inputDrvs d) ?st3' = Inr st4"
          and fin: "finishStep a st4 = Inr (res, st')"
          by (auto simp: Let_def split: sum.splits)
        have n3': "noResurrect st ?st3'"
          using n3 by (simp add: noResurrect_def)
        have n4: "noResurrect ?st3' st4"
          using c
          by (rule createDeps_rel [where R = noResurrect, rotated 4])
             (auto intro: noResurrect_refl noResurrect_trans noResurrect_updStep Suc.IH)
        from n3' n4 noResurrect_finishStep [OF fin] show ?thesis
          by (blast intro: noResurrect_trans)
      qed
    qed
  qed
qed

lemma grows_refl: "grows st st"
  by (auto simp: grows_def sameCore_refl)

lemma grows_heap:
  "grows st st' \<Longrightarrow> heap st x = Some t \<Longrightarrow>
   \<exists>t'. heap st' x = Some t' \<and> drvPath t' = drvPath t \<and> (created t \<longrightarrow> sameCore t t')"
  by (simp add: grows_def)

lemma liveCreated_grows: "grows st st' \<Longrightarrow> liveCreated st x \<Longrightarrow> liveCreated st' x"
  unfolding grows_def liveCreated_def sameCore_def by fastforce

lemma grows_trans:
  assumes "grows a b" "grows b c"
  shows "grows a c"
proof -
  have heap: "\<exists>t'. heap c x = Some t' \<and> drvPath t' = drvPath t \<and> (created t \<longrightarrow> sameCore t t')"
    if "heap a x = Some t" for x t
  proof -
    from grows_heap [OF assms(1) that] obtain t1 where t1: "heap b x = Some t1"
      "drvPath t1 = drvPath t" "created t \<longrightarrow> sameCore t t1"
      by blast
    from grows_heap [OF assms(2) t1(1)] obtain t2 where t2: "heap c x = Some t2"
      "drvPath t2 = drvPath t1" "created t1 \<longrightarrow> sameCore t1 t2"
      by blast
    from t1 t2 show ?thesis
      by (auto simp: sameCore_def)
  qed
  have run: "x \<in> set (newRunnable a) \<or> \<not> liveCreated a x" if "x \<in> set (newRunnable c)" for x
  proof -
    from assms(2) that have "x \<in> set (newRunnable b) \<or> \<not> liveCreated b x"
      by (auto simp: grows_def)
    then show ?thesis
    proof
      assume "x \<in> set (newRunnable b)"
      with assms(1) show ?thesis by (auto simp: grows_def)
    next
      assume "\<not> liveCreated b x"
      with liveCreated_grows [OF assms(1)] show ?thesis by blast
    qed
  qed
  from heap run assms show ?thesis
    unfolding grows_def by (intro conjI allI impI ballI) blast+
qed

lemma grows_createStep:
  assumes "fresh st" "createStep n E p rb rs st = Inr (res, st')"
  shows "grows st st'"
proof -
  from createStep_preserves [OF assms] have p: "preserves {} st st'" by simp
  from stepFrame_createStep [OF assms(2)] have f: "stepFrame st st'" .
  from createStep_newOnly [OF assms(2)] have n: "newOnly st st'" .
  have "x \<in> set (newRunnable st) \<or> \<not> liveCreated st x" if "x \<in> set (newRunnable st')" for x
  proof -
    from n that have "x \<in> set (newRunnable st) \<or> nextId st \<le> x"
      by (auto simp: newOnly_def)
    with assms(1) show ?thesis
      by (auto simp: fresh_def liveCreated_def)
  qed
  with p f show ?thesis
    unfolding grows_def preserves_def stepFrame_def sameCore_def by fastforce
qed

lemma grows_updStep:
  assumes "heap st a = Some s" "\<not> created s" "drvPath (f s) = drvPath s"
  shows "grows st (updStep a f st)"
  using assms by (auto simp: grows_def updStep_def sameCore_refl)

lemma linked_grows:
  assumes "linked st d done s" "grows st st'"
  shows "linked st' d done s"
proof -
  have 1: "\<exists>t'. heap st' x = Some t' \<and> created t' \<and> drvPath t' = drvPath t"
    if "heap st x = Some t" "created t" for x t
    using assms(2) that unfolding grows_def sameCore_def by fastforce
  have 2: "\<exists>t'. heap st' x = Some t' \<and> drvPath t' = drvPath t" if "heap st x = Some t" for x t
    using assms(2) that unfolding grows_def by fastforce
  have 3: "i \<in> set (finishedDrvs st) \<Longrightarrow> i \<in> set (finishedDrvs st')" for i
    using assms(2) by (auto simp: grows_def)
  from assms(1) show ?thesis
    unfolding linked_def
    by (intro conjI ballI) (metis 1, metis 2 3)
qed

lemma initialised_grows:
  assumes "initialised E st a" "grows st st'"
  shows "initialised E st' a"
proof -
  from assms(1) obtain s where s: "heap st a = Some s" "created s" "a \<in> set (newSteps st)"
    "readDerivation E (drvPath s) = Some (drv s)"
    "a \<in> set (newRunnable st) \<longleftrightarrow> deps s = []" "linked st (drv s) (inputDrvs (drv s)) s"
    by (auto simp: initialised_def)
  from grows_heap [OF assms(2) s(1)] s(2) obtain s' where s': "heap st' a = Some s'"
    "sameCore s s'"
    by blast
  have lc: "liveCreated st a" using s(1,2) by (auto simp: liveCreated_def)
  have "a \<in> set (newRunnable st') \<longleftrightarrow> a \<in> set (newRunnable st)"
    using assms(2) lc by (auto simp: grows_def)
  moreover have "linked st' (drv s') (inputDrvs (drv s')) s'"
    using linked_grows [OF s(6) assms(2)] s'(2) by (simp add: linked_def sameCore_def)
  moreover have "a \<in> set (newSteps st')"
    using assms(2) s(3) by (auto simp: grows_def)
  ultimately show ?thesis
    using s s' unfolding initialised_def sameCore_def by auto
qed

lemma grows_finishStep:
  assumes "finishStep a st = Inr (r, st')"
  shows "grows st st'"
proof -
  from assms obtain s where s: "heap st a = Some s" "\<not> created s"
    by (auto simp: finishStep_def split: option.splits if_splits)
  then have "\<not> liveCreated st a" by (simp add: liveCreated_def)
  with assms s show ?thesis
    by (auto simp: finishStep_def grows_def sameCore_refl Let_def split: if_splits)
qed

lemma entriesOk_updStep:
  assumes "entriesOk st" "\<And>s. drvPath (f s) = drvPath s"
  shows "entriesOk (updStep a f st)"
  using assms unfolding entriesOk_def updStep_def by (auto split: if_splits)

lemma entriesOk_internStep:
  assumes "internStep p rb rs st = Inr (a, isNew, st')" "fresh st" "entriesOk st"
  shows "entriesOk st'"
  using assms(1)
proof (cases rule: internStep_cases)
  case (old s)
  with assms(3) show ?thesis
    unfolding entriesOk_def by (auto split: if_splits)
next
  case new
  have "\<forall>q x. steps st q = Some x \<longrightarrow> x \<noteq> nextId st"
    using assms(2) by (auto simp: fresh_def)
  with new assms(3) show ?thesis
    unfolding entriesOk_def by (auto simp: newStep_def split: if_splits)
qed

lemma stepsDone_fresh: "fresh st \<Longrightarrow> bounded st \<Longrightarrow> stepsDone E (nextId st) st"
  unfolding stepsDone_def fresh_def bounded_def by (auto simp: not_less [symmetric])

lemma linked_insert:
  assumes "linked st d done s" "heap st dep = Some t" "created t" "drvPath t = i"
    "i \<in> set (inputDrvs d)"
  shows "linked st d (done @ [i]) (s\<lparr>deps := List.insert dep (deps s)\<rparr>)"
  using assms unfolding linked_def by auto

lemma linked_finished:
  assumes "linked st d done s" "i \<in> set (finishedDrvs st)"
  shows "linked st d (done @ [i]) s"
  using assms unfolding linked_def by auto

lemma linked_deps: "deps s' = deps s \<Longrightarrow> linked st d done s' = linked st d done s"
  by (simp add: linked_def)

lemma preserves_heap:
  "preserves X st st' \<Longrightarrow> a \<notin> X \<Longrightarrow> heap st a = Some s \<Longrightarrow>
   \<exists>s'. heap st' a = Some s' \<and> sameCore s s'"
  by (simp add: preserves_def)

lemma noResurrect_alive:
  "noResurrect st st' \<Longrightarrow> x < nextId st \<Longrightarrow> heap st' x \<noteq> None \<Longrightarrow> heap st x \<noteq> None"
  by (cases "heap st x") (auto simp: noResurrect_def)

lemma newOnly_old:
  assumes "newOnly st st'" "x < nextId st"
  shows "x \<in> set (newRunnable st') \<Longrightarrow> x \<in> set (newRunnable st)"
    and "x \<in> set (newSteps st') \<Longrightarrow> x \<in> set (newSteps st)"
proof -
  from assms have "x \<notin> {nextId st ..< nextId st'}" by simp
  with assms(1) show "x \<in> set (newRunnable st') \<Longrightarrow> x \<in> set (newRunnable st)"
    and "x \<in> set (newSteps st') \<Longrightarrow> x \<in> set (newSteps st)"
    unfolding newOnly_def by blast+
qed

lemma grows_alive: "grows st st' \<Longrightarrow> heap st x \<noteq> None \<Longrightarrow> heap st' x \<noteq> None"
  using grows_heap [of st st' x] by fastforce

lemma building_after_child:
  assumes b: "building E a p d ds st" and run: "stepRun E i st r s1"
  shows "building E a p d ds s1"
proof -
  from b have fr: "fresh st" and a: "a < nextId st"
    and mem: "a \<in> set (newSteps st)" "a \<notin> set (newRunnable st)"
    and sd: "stepsDone E (Suc a) st"
    by (simp_all add: building_def)
  from b obtain s where s: "heap st a = Some s" "\<not> created s" "drv s = d" "drvPath s = p"
    "linked st d ds s"
    unfolding building_def by blast
  from run have r: "fresh s1" "preserves {} st s1" "grows st s1" "noResurrect st s1"
    "newOnly st s1" "entriesOk s1" "bounded s1" "stepsDone E (nextId st) s1"
    by (simp_all add: stepRun_def)
  from preserves_heap [OF r(2) _ s(1)] obtain s' where s': "heap s1 a = Some s'" "sameCore s s'"
    by blast
  have "nextId st \<le> nextId s1"
    using r(5) by (simp add: newOnly_def)
  with a have a1: "a < nextId s1" by simp
  have l: "linked s1 d ds s'"
    using linked_grows [OF s(5) r(3)] s'(2) linked_deps [of s' s s1 d ds]
    by (simp add: sameCore_def)
  have m1: "a \<in> set (newSteps s1)"
    using mem(1) r(3) unfolding grows_def by blast
  have m2: "a \<notin> set (newRunnable s1)"
    using mem(2) newOnly_old(1) [OF r(5) a] by blast
  have c: "initialised E s1 x" if x: "Suc a \<le> x" "heap s1 x \<noteq> None" for x
  proof (cases "nextId st \<le> x")
    case True
    with r(8) x show ?thesis unfolding stepsDone_def by blast
  next
    case False
    then have "x < nextId st" by simp
    from noResurrect_alive [OF r(4) this x(2)] sd x(1) have "initialised E st x"
      unfolding stepsDone_def by blast
    then show ?thesis using r(3) by (rule initialised_grows)
  qed
  have d: "heap s1 x \<noteq> None"
    if x: "x \<in> set (newRunnable s1) \<union> set (newSteps s1)" "Suc a \<le> x" for x
  proof (cases "nextId st \<le> x")
    case True
    with r(8) x show ?thesis unfolding stepsDone_def by blast
  next
    case False
    then have "x < nextId st" by simp
    from newOnly_old [OF r(5) this] x(1)
    have "x \<in> set (newRunnable st) \<union> set (newSteps st)" by blast
    with sd x(2) have "heap st x \<noteq> None" unfolding stepsDone_def by blast
    with r(3) show ?thesis by (rule grows_alive)
  qed
  from c d have "stepsDone E (Suc a) s1"
    unfolding stepsDone_def by blast
  moreover have "\<exists>s. heap s1 a = Some s \<and> \<not> created s \<and> drv s = d \<and> drvPath s = p \<and>
      linked s1 d ds s"
    using s' s(2,3,4) l by (intro exI [where x = s']) (simp add: sameCore_def)
  ultimately show ?thesis
    using r(1,6,7) a1 m1 m2 unfolding building_def by (intro conjI)
qed

lemma building_add_dep:
  assumes b: "building E a p d ds st" and dep: "heap st dep = Some t" "created t"
    "drvPath t = i" "i \<in> set (inputDrvs d)"
  shows "building E a p d (ds @ [i]) (updStep a (\<lambda>s. s\<lparr>deps := List.insert dep (deps s)\<rparr>) st)"
proof -
  let ?g = "\<lambda>s. s\<lparr>deps := List.insert dep (deps s)\<rparr>"
  let ?st' = "updStep a ?g st"
  from b have fr: "fresh st" "entriesOk st" "bounded st" and a: "a < nextId st"
    and mem: "a \<in> set (newSteps st)" "a \<notin> set (newRunnable st)"
    and sd: "stepsDone E (Suc a) st"
    by (simp_all add: building_def)
  from b obtain s where s: "heap st a = Some s" "\<not> created s" "drv s = d" "drvPath s = p"
    "linked st d ds s"
    unfolding building_def by blast
  have g: "grows st ?st'"
    using s(1,2) by (rule grows_updStep) simp
  have ne: "dep \<noteq> a" using dep s by auto
  have h: "heap ?st' a = Some (?g s)" by (simp add: updStep_def s)
  have hd: "heap ?st' dep = Some t" using ne dep(1) by (simp add: updStep_def)
  have "linked ?st' d ds s" using s(5) g by (rule linked_grows)
  from linked_insert [OF this hd dep(2-4)]
  have l: "linked ?st' d (ds @ [i]) (?g s)" .
  have dom: "heap ?st' x \<noteq> None \<longleftrightarrow> heap st x \<noteq> None" for x
    by (simp add: updStep_def)
  have sets: "newRunnable ?st' = newRunnable st" "newSteps ?st' = newSteps st"
    "nextId ?st' = nextId st"
    by (simp_all add: updStep_def)
  have "stepsDone E (Suc a) ?st'"
    unfolding stepsDone_def
  proof (intro conjI allI impI ballI)
    fix x assume "Suc a \<le> x \<and> heap ?st' x \<noteq> None"
    with sd dom have "initialised E st x" by (simp add: stepsDone_def)
    then show "initialised E ?st' x" using g by (rule initialised_grows)
  next
    fix x assume "x \<in> set (newRunnable ?st') \<union> set (newSteps ?st')" "Suc a \<le> x"
    with sd sets have "heap st x \<noteq> None" by (simp add: stepsDone_def)
    with dom show "heap ?st' x \<noteq> None" by simp
  qed
  moreover have "fresh ?st'" "entriesOk ?st'"
    using fr by (simp_all add: fresh_updStep entriesOk_updStep)
  moreover have "bounded ?st'"
    using fr(3) by (simp add: bounded_def sets)
  moreover have "\<exists>s. heap ?st' a = Some s \<and> \<not> created s \<and> drv s = d \<and> drvPath s = p \<and>
      linked ?st' d (ds @ [i]) s"
    using h s(2,3,4) l by (intro exI [where x = "?g s"]) simp
  ultimately show ?thesis
    using a mem unfolding building_def by (intro conjI) (simp_all add: sets)
qed

lemma building_finished:
  assumes b: "building E a p d ds st" and i: "i \<in> set (finishedDrvs st)"
  shows "building E a p d (ds @ [i]) st"
proof -
  from b obtain s where s: "heap st a = Some s" "\<not> created s" "drv s = d" "drvPath s = p"
    "linked st d ds s"
    unfolding building_def by blast
  from linked_finished [OF s(5) i] s(1-4)
  have "\<exists>s. heap st a = Some s \<and> \<not> created s \<and> drv s = d \<and> drvPath s = p \<and>
      linked st d (ds @ [i]) s"
    by blast
  with b show ?thesis
    unfolding building_def by (intro conjI) simp_all
qed

lemma building_createDeps:
  assumes f: "\<And>i s r s'. fresh s \<Longrightarrow> entriesOk s \<Longrightarrow> bounded s \<Longrightarrow> f i s = Inr (r, s') \<Longrightarrow>
                stepRun E i s r s'"
  shows "building E a p d ds st \<Longrightarrow> set is \<subseteq> set (inputDrvs d) \<Longrightarrow>
         createDeps f a is st = Inr st' \<Longrightarrow> building E a p d (ds @ is) st'"
proof (induction "is" arbitrary: st ds)
  case Nil
  then show ?case by simp
next
  case (Cons i "is")
  from Cons.prems(3) obtain r s1 where run: "f i st = Inr (r, s1)"
    by (auto split: sum.splits)
  from Cons.prems(1) have "fresh st" "entriesOk st" "bounded st"
    by (simp_all add: building_def)
  then have sr: "stepRun E i st r s1" using run by (rule f)
  from building_after_child [OF Cons.prems(1) sr] have b1: "building E a p d ds s1" .
  from Cons.prems(2) have i: "i \<in> set (inputDrvs d)" and sub: "set is \<subseteq> set (inputDrvs d)"
    by simp_all
  show ?case
  proof (cases r)
    case None
    with sr have "i \<in> set (finishedDrvs s1)" by (simp add: stepRun_def)
    with b1 have b2: "building E a p d (ds @ [i]) s1" by (rule building_finished)
    from None Cons.prems(3) run have "createDeps f a is s1 = Inr st'" by simp
    from Cons.IH [OF b2 sub this] show ?thesis by simp
  next
    case (Some dep)
    with sr obtain t where t: "heap s1 dep = Some t" "created t" "drvPath t = i"
      by (auto simp: stepRun_def)
    from building_add_dep [OF b1 t i]
    have b2: "building E a p d (ds @ [i])
        (updStep a (\<lambda>s. s\<lparr>deps := List.insert dep (deps s)\<rparr>) s1)" .
    from Some Cons.prems(3) run
    have "createDeps f a is (updStep a (\<lambda>s. s\<lparr>deps := List.insert dep (deps s)\<rparr>) s1) = Inr st'"
      by simp
    from Cons.IH [OF b2 sub this] show ?thesis by simp
  qed
qed

lemma building_finishStep:
  assumes b: "building E a p d (inputDrvs d) st" and rd: "readDerivation E p = Some d"
    and fin: "finishStep a st = Inr (res, st')"
  shows "entriesOk st' \<and> bounded st' \<and> stepsDone E a st' \<and> res = Some a \<and>
         (\<exists>t. heap st' a = Some t \<and> created t \<and> drvPath t = p)"
proof -
  from b have fr: "fresh st" "entriesOk st" "bounded st" and a: "a < nextId st"
    and mem: "a \<in> set (newSteps st)" "a \<notin> set (newRunnable st)"
    and sd: "stepsDone E (Suc a) st"
    by (simp_all add: building_def)
  from b obtain s where s: "heap st a = Some s" "\<not> created s" "drv s = d" "drvPath s = p"
    "linked st d (inputDrvs d) s"
    unfolding building_def by blast
  let ?s = "s\<lparr>created := True\<rparr>"
  from fin s(1,2) have res: "res = Some a"
    and h: "heap st' = (heap st)(a \<mapsto> ?s)" "nextId st' = nextId st"
      "newSteps st' = newSteps st" "steps st' = steps st"
    and nr: "set (newRunnable st') =
      (if deps s = [] then insert a (set (newRunnable st)) else set (newRunnable st))"
    by (auto simp: finishStep_def Let_def split: if_splits)
  have g: "grows st st'" using fin by (rule grows_finishStep)
  have e: "entriesOk st'"
    using fr(2) s(1) unfolding entriesOk_def h by (auto split: if_splits)
  have bd: "bounded st'"
    using fr(3) a unfolding bounded_def h nr by (auto split: if_splits)
  have "linked st' d (inputDrvs d) s" using s(5) g by (rule linked_grows)
  then have l: "linked st' (drv ?s) (inputDrvs (drv ?s)) ?s"
    using linked_deps [of ?s s st' d "inputDrvs d"] s(3) by simp
  have ia: "initialised E st' a"
    unfolding initialised_def
    using l mem s(3,4) rd
    by (intro exI [where x = ?s]) (simp add: h nr)
  have c: "initialised E st' x" if x: "a \<le> x" "heap st' x \<noteq> None" for x
  proof (cases "x = a")
    case True
    with ia show ?thesis by simp
  next
    case False
    with x have "Suc a \<le> x" "heap st x \<noteq> None" by (simp_all add: h)
    with sd have "initialised E st x" unfolding stepsDone_def by blast
    then show ?thesis using g by (rule initialised_grows)
  qed
  have dd: "heap st' x \<noteq> None"
    if x: "x \<in> set (newRunnable st') \<union> set (newSteps st')" "a \<le> x" for x
  proof (cases "x = a")
    case True
    then show ?thesis by (simp add: h)
  next
    case False
    with x have "Suc a \<le> x" "x \<in> set (newRunnable st) \<union> set (newSteps st)"
      by (auto simp: h nr split: if_splits)
    with sd have "heap st x \<noteq> None" unfolding stepsDone_def by blast
    with False show ?thesis by (simp add: h)
  qed
  from c dd have "stepsDone E a st'" unfolding stepsDone_def by blast
  moreover have "\<exists>t. heap st' a = Some t \<and> created t \<and> drvPath t = p"
    using s(4) by (simp add: h)
  ultimately show ?thesis using e bd res by simp
qed

lemma building_start:
  assumes fr: "fresh st" "entriesOk st" "bounded st"
    and new: "steps st p = None \<or> (\<exists>w. steps st p = Some w \<and> heap st w = None)"
    and st1: "st1 = st\<lparr>heap := (heap st)(nextId st \<mapsto> linkBack rb rs (newStep p)),
                      nextId := Suc (nextId st), steps := (steps st)(p \<mapsto> nextId st)\<rparr>"
    and rd: "readDrv E p st1 = Inr (d, st2)"
    and st3: "st3 = updStep (nextId st) (initStep E d) st2"
  shows "building E (nextId st) p d [] (st3\<lparr>newSteps := List.insert (nextId st) (newSteps st3)\<rparr>)"
    and "readDerivation E p = Some d"
    and "nextId st3 = Suc (nextId st)"
    and "entriesOk (st3\<lparr>finishedDrvs := List.insert p (finishedDrvs st3),
                       heap := (heap st3)(nextId st := None)\<rparr>)"
    and "bounded (st3\<lparr>finishedDrvs := List.insert p (finishedDrvs st3),
                       heap := (heap st3)(nextId st := None)\<rparr>)"
    and "stepsDone E (nextId st) (st3\<lparr>finishedDrvs := List.insert p (finishedDrvs st3),
                       heap := (heap st3)(nextId st := None)\<rparr>)"
proof -
  let ?a = "nextId st"
  let ?s = "initStep E d (linkBack rb rs (newStep p))"
  let ?b = "st3\<lparr>newSteps := List.insert ?a (newSteps st3)\<rparr>"
  let ?v = "st3\<lparr>finishedDrvs := List.insert p (finishedDrvs st3), heap := (heap st3)(?a := None)\<rparr>"
  from rd show r: "readDerivation E p = Some d"
    by (auto simp: readDrv_def split: option.splits)
  from rd have st2: "st2 = st1\<lparr>drvReads := drvReads st1 @ [p]\<rparr>"
    by (auto simp: readDrv_def split: option.splits)
  have h: "heap st3 = (heap st)(?a \<mapsto> ?s)" "nextId st3 = Suc ?a"
    "steps st3 = (steps st)(p \<mapsto> ?a)" "newSteps st3 = newSteps st"
    "newRunnable st3 = newRunnable st" "finishedDrvs st3 = finishedDrvs st"
    by (simp_all add: st3 st2 st1 updStep_def fun_eq_iff)
  show "nextId st3 = Suc ?a" by (rule h)
  have s: "\<not> created ?s" "drv ?s = d" "drvPath ?s = p" "deps ?s = []"
    by (simp_all add: initStep_def newStep_def)
  have dead: "heap st x = None" if "?a \<le> x" for x
    using fr(1) that by (simp add: fresh_def)
  have old: "x < ?a" if "x \<in> set (newRunnable st) \<union> set (newSteps st)" for x
    using fr(3) that unfolding bounded_def by blast
  have ent: "drvPath t = q" if "steps st q = Some x" "heap st x = Some t" for q x t
    using fr(2) that unfolding entriesOk_def by blast
  have lt: "x < Suc ?a" if "steps st q = Some x" for q x
    using fr(1) that unfolding fresh_def by (simp add: less_Suc_eq)
  have ne: "steps st q \<noteq> Some ?a" for q
    using fr(1) unfolding fresh_def by fastforce
  have f3: "fresh ?b"
    unfolding fresh_def using dead lt by (auto simp: h split: if_splits)
  have e3: "entriesOk ?b"
    unfolding entriesOk_def using ent s(3) ne by (auto simp: h split: if_splits)
  have b3: "bounded ?b"
    unfolding bounded_def using old by (auto simp: h less_Suc_eq)
  have "stepsDone E (nextId ?b) ?b" using f3 b3 by (rule stepsDone_fresh)
  then have sd: "stepsDone E (Suc ?a) ?b" by (simp add: h)
  have l: "linked ?b d [] ?s" by (simp add: linked_def s)
  have nr: "?a \<notin> set (newRunnable ?b)" using old [of ?a] by (auto simp: h)
  have "\<exists>t. heap ?b ?a = Some t \<and> \<not> created t \<and> drv t = d \<and> drvPath t = p \<and> linked ?b d [] t"
    using s l by (intro exI [where x = ?s]) (simp add: h)
  with f3 e3 b3 sd nr show "building E ?a p d [] ?b"
    unfolding building_def by (intro conjI) (simp_all add: h)
  show "entriesOk ?v"
    unfolding entriesOk_def using ent ne by (auto simp: h split: if_splits)
  show "bounded ?v"
    unfolding bounded_def using old by (auto simp: h less_Suc_eq)
  have "heap ?v x = None" if "?a \<le> x" for x
    using dead that by (simp add: h)
  moreover have "\<not> ?a \<le> x" if "x \<in> set (newRunnable ?v) \<union> set (newSteps ?v)" for x
    using old [of x] that by (simp add: h)
  ultimately show "stepsDone E ?a ?v"
    unfolding stepsDone_def by (intro conjI allI impI ballI) auto
qed

lemma createStep_stepRun:
  "fresh st \<Longrightarrow> entriesOk st \<Longrightarrow> bounded st \<Longrightarrow> createStep n E p rb rs st = Inr (res, st') \<Longrightarrow>
   stepRun E p st res st'"
proof (induction n arbitrary: p rb rs st res st')
  case 0
  then show ?case by simp
next
  case (Suc n)
  note run = Suc.prems(4)
  from createStep_preserves [OF Suc.prems(1) run]
  have g1: "fresh st'" "preserves {} st st'" by simp_all
  have g2: "grows st st'" using Suc.prems(1) run by (rule grows_createStep)
  have g3: "noResurrect st st'" using run by (rule createStep_noResurrect)
  have g4: "newOnly st st'" using run by (rule createStep_newOnly)
  have core: "entriesOk st' \<and> bounded st' \<and> stepsDone E (nextId st) st' \<and>
      (res = None \<longrightarrow> p \<in> set (finishedDrvs st')) \<and>
      (\<forall>x. res = Some x \<longrightarrow> (\<exists>t. heap st' x = Some t \<and> created t \<and> drvPath t = p))"
  proof (cases "p \<in> set (finishedDrvs st)")
    case True
    with run have "res = None" "st' = st" by simp_all
    with True Suc.prems(1-3) stepsDone_fresh [of st E] show ?thesis by simp
  next
    case nf: False
    with run obtain a isNew st1 where i: "internStep p rb rs st = Inr (a, isNew, st1)"
      by (auto split: sum.splits)
    show ?thesis
    proof (cases isNew)
      case False
      with run nf i have r: "res = Some a" "st' = st1" by simp_all
      from i False obtain s where s: "steps st p = Some a" "heap st a = Some s" "created s"
        "st1 = st\<lparr>heap := (heap st)(a \<mapsto> linkBack rb rs s)\<rparr>"
        by (cases rule: internStep_cases) simp_all
      have e: "entriesOk st1" using i Suc.prems(1,2) by (rule entriesOk_internStep)
      have b: "bounded st1" using Suc.prems(3) by (simp add: bounded_def s(4))
      have f: "fresh st1" using i Suc.prems(1) by (rule internStep_fresh)
      have "stepsDone E (nextId st1) st1" using f b by (rule stepsDone_fresh)
      then have sd: "stepsDone E (nextId st) st1" by (simp add: s(4))
      have "drvPath s = p" using Suc.prems(2) s(1,2) unfolding entriesOk_def by blast
      then have "\<exists>t. heap st1 a = Some t \<and> created t \<and> drvPath t = p"
        using s(3) by (simp add: s(4))
      with e b sd r show ?thesis by simp
    next
      case True
      from i True
      have new: "steps st p = None \<or> (\<exists>w. steps st p = Some w \<and> heap st w = None)"
        and a: "a = nextId st"
        and st1: "st1 = st\<lparr>heap := (heap st)(nextId st \<mapsto> linkBack rb rs (newStep p)),
                      nextId := Suc (nextId st), steps := (steps st)(p \<mapsto> nextId st)\<rparr>"
        by (cases rule: internStep_cases; simp)+
      from run nf i True obtain d st2 where rd: "readDrv E p st1 = Inr (d, st2)"
        by (auto split: sum.splits)
      define st3 where "st3 = updStep (nextId st) (initStep E d) st2"
      note bs = building_start [OF Suc.prems(1-3) new st1 rd st3_def]
      show ?thesis
      proof (cases "allValid E d")
        case True
        with run nf i \<open>isNew\<close> rd
        have "res = None"
          "st' = st3\<lparr>finishedDrvs := List.insert p (finishedDrvs st3),
                     heap := (heap st3)(nextId st := None)\<rparr>"
          by (simp_all add: Let_def st3_def a)
        with bs(4,5,6) show ?thesis by simp
      next
        case False
        let ?b = "st3\<lparr>newSteps := List.insert (nextId st) (newSteps st3)\<rparr>"
        let ?f = "\<lambda>i s. createStep n E i None (Some (nextId st)) s"
        from run nf i \<open>isNew\<close> rd False obtain st4
          where cd: "createDeps ?f (nextId st) (inputDrvs d) ?b = Inr st4"
            and fin: "finishStep (nextId st) st4 = Inr (res, st')"
          by (auto simp: Let_def st3_def a split: sum.splits)
        have "building E (nextId st) p d ([] @ inputDrvs d) st4"
        proof (rule building_createDeps [where f = ?f and st = ?b])
          fix i s r s'
          assume "fresh s" "entriesOk s" "bounded s"
            "createStep n E i None (Some (nextId st)) s = Inr (r, s')"
          then show "stepRun E i s r s'" by (rule Suc.IH)
        qed (simp_all add: bs(1) cd)
        then have "building E (nextId st) p d (inputDrvs d) st4" by simp
        from building_finishStep [OF this bs(2) fin] show ?thesis by simp
      qed
    qed
  qed
  with g1 g2 g3 g4 show ?case unfolding stepRun_def by (intro conjI) simp_all
qed



subsection \<open>createStep returns\<close>

lemma readable_Suc: "readable E n p \<Longrightarrow> readable E (Suc n) p"
proof (induction n arbitrary: p)
  case 0
  then show ?case by simp
next
  case (Suc n)
  from Suc.prems obtain d where d: "readDerivation E p = Some d"
    "\<forall>i \<in> set (inputDrvs d). readable E n i"
    by (auto simp: list_all_iff split: option.splits)
  from d(2) Suc.IH have "\<forall>i \<in> set (inputDrvs d). readable E (Suc n) i" by blast
  then have "list_all (readable E (Suc n)) (inputDrvs d)" unfolding list_all_iff .
  with d(1) show ?case by (subst readable.simps(2)) (simp only: option.case)
qed

lemma readable_mono: "readable E n p \<Longrightarrow> n \<le> m \<Longrightarrow> readable E m p"
  by (induction m) (auto simp: le_Suc_eq readable_Suc simp del: readable.simps)

lemma offPath_less: "offPath E (Suc k) st \<Longrightarrow> offPath E k st"
  unfolding offPath_def using readable_Suc by blast

lemma offPath_stepRun:
  assumes o: "offPath E k s" and r: "stepRun E i s r s'"
  shows "offPath E k s'"
  unfolding offPath_def
proof (intro allI impI)
  fix a t
  assume t: "heap s' a = Some t \<and> \<not> created t"
  from r have p: "preserves {} s s'" and nr: "noResurrect s s'"
    and sd: "stepsDone E (nextId s) s'"
    by (simp_all add: stepRun_def)
  show "\<not> readable E k (drvPath t)"
  proof (cases "a < nextId s")
    case True
    from t have "heap s' a \<noteq> None" by simp
    from noResurrect_alive [OF nr True this] obtain u where u: "heap s a = Some u" by blast
    from preserves_heap [OF p _ u] t have "sameCore u t" by auto
    with t have "\<not> created u" "drvPath u = drvPath t" by (simp_all add: sameCore_def)
    with o u show ?thesis unfolding offPath_def by metis
  next
    case False
    with sd t have "initialised E s' a" unfolding stepsDone_def by simp
    with t show ?thesis by (auto simp: initialised_def)
  qed
qed

lemma offPath_updStep:
  assumes "offPath E k st" "\<And>s. created (f s) = created s" "\<And>s. drvPath (f s) = drvPath s"
  shows "offPath E k (updStep a f st)"
  using assms unfolding offPath_def updStep_def by (auto split: if_splits)

lemma createDeps_total:
  assumes tot: "\<And>i s. i \<in> set (inputDrvs d) \<Longrightarrow> fresh s \<Longrightarrow> entriesOk s \<Longrightarrow> bounded s \<Longrightarrow>
                  offPath E k s \<Longrightarrow> \<exists>r s'. f i s = Inr (r, s')"
    and run: "\<And>i s r s'. fresh s \<Longrightarrow> entriesOk s \<Longrightarrow> bounded s \<Longrightarrow> f i s = Inr (r, s') \<Longrightarrow>
                stepRun E i s r s'"
  shows "building E a p d ds st \<Longrightarrow> offPath E k st \<Longrightarrow> set is \<subseteq> set (inputDrvs d) \<Longrightarrow>
         \<exists>st'. createDeps f a is st = Inr st'"
proof (induction "is" arbitrary: st ds)
  case Nil
  then show ?case by simp
next
  case (Cons i "is")
  from Cons.prems(1) have inv: "fresh st" "entriesOk st" "bounded st"
    by (simp_all add: building_def)
  from Cons.prems(3) have i: "i \<in> set (inputDrvs d)" and sub: "set is \<subseteq> set (inputDrvs d)"
    by simp_all
  from tot [OF i inv Cons.prems(2)] obtain r s1 where f: "f i st = Inr (r, s1)" by blast
  from inv f have sr: "stepRun E i st r s1" by (rule run)
  from building_after_child [OF Cons.prems(1) sr] have b1: "building E a p d ds s1" .
  from Cons.prems(2) sr have o1: "offPath E k s1" by (rule offPath_stepRun)
  show ?case
  proof (cases r)
    case None
    with sr have "i \<in> set (finishedDrvs s1)" by (simp add: stepRun_def)
    with b1 have "building E a p d (ds @ [i]) s1" by (rule building_finished)
    from Cons.IH [OF this o1 sub] None f show ?thesis by simp
  next
    case (Some dep)
    with sr obtain t where t: "heap s1 dep = Some t" "created t" "drvPath t = i"
      by (auto simp: stepRun_def)
    let ?s2 = "updStep a (\<lambda>s. s\<lparr>deps := List.insert dep (deps s)\<rparr>) s1"
    from building_add_dep [OF b1 t i] have b2: "building E a p d (ds @ [i]) ?s2" .
    have o2: "offPath E k ?s2" using o1 by (rule offPath_updStep) simp_all
    from Cons.IH [OF b2 o2 sub] Some f show ?thesis by simp
  qed
qed

lemma createStep_total:
  "readable E k p \<Longrightarrow> k \<le> m \<Longrightarrow> fresh st \<Longrightarrow> entriesOk st \<Longrightarrow> bounded st \<Longrightarrow> offPath E k st \<Longrightarrow>
   \<exists>res st'. createStep m E p rb rs st = Inr (res, st')"
proof (induction k arbitrary: m p rb rs st)
  case 0
  then show ?case by simp
next
  case (Suc k)
  show ?case
  proof (cases "readable E k p")
    case True
    from Suc.prems(2) have "k \<le> m" by simp
    from Suc.IH [OF True this Suc.prems(3-5) offPath_less [OF Suc.prems(6)]]
    show ?thesis .
  next
    case nr: False
    from Suc.prems(2) obtain m' where m: "m = Suc m'" "k \<le> m'" by (cases m) simp_all
    from Suc.prems(1) obtain d where d: "readDerivation E p = Some d"
      "\<forall>i \<in> set (inputDrvs d). readable E k i"
      by (auto simp: list_all_iff split: option.splits)
    show ?thesis
    proof (cases "p \<in> set (finishedDrvs st)")
      case True
      then show ?thesis by (simp add: m)
    next
      case nf: False
      have "\<exists>a isNew st1. internStep p rb rs st = Inr (a, isNew, st1)"
      proof (cases "steps st p = None \<or> (\<exists>w. steps st p = Some w \<and> heap st w = None)")
        case True
        from internStep_new [OF this] show ?thesis by blast
      next
        case False
        then obtain w s where w: "steps st p = Some w" "heap st w = Some s" by auto
        from Suc.prems(4) w have "drvPath s = p" unfolding entriesOk_def by blast
        with Suc.prems(1,6) w(2) have "created s" unfolding offPath_def by metis
        from internStep_old [OF w this] show ?thesis by blast
      qed
      then obtain a isNew st1 where i: "internStep p rb rs st = Inr (a, isNew, st1)" by blast
      show ?thesis
      proof (cases isNew)
        case False
        with nf i show ?thesis by (simp add: m)
      next
        case True
        from i True
        have new: "steps st p = None \<or> (\<exists>w. steps st p = Some w \<and> heap st w = None)"
          and a: "a = nextId st"
          and st1: "st1 = st\<lparr>heap := (heap st)(nextId st \<mapsto> linkBack rb rs (newStep p)),
                        nextId := Suc (nextId st), steps := (steps st)(p \<mapsto> nextId st)\<rparr>"
          by (cases rule: internStep_cases; simp)+
        define st2 where "st2 = st1\<lparr>drvReads := drvReads st1 @ [p]\<rparr>"
        have rd: "readDrv E p st1 = Inr (d, st2)"
          using d(1) by (simp add: readDrv_def st2_def)
        define st3 where "st3 = updStep (nextId st) (initStep E d) st2"
        note bs = building_start [OF Suc.prems(3-5) new st1 rd st3_def]
        show ?thesis
        proof (cases "allValid E d")
          case True
          with nf i \<open>isNew\<close> rd show ?thesis by (simp add: m Let_def)
        next
          case False
          let ?b = "st3\<lparr>newSteps := List.insert (nextId st) (newSteps st3)\<rparr>"
          let ?f = "\<lambda>i s. createStep m' E i None (Some (nextId st)) s"
          have hb: "heap ?b = (heap st)(nextId st \<mapsto> initStep E d (linkBack rb rs (newStep p)))"
            by (simp add: st3_def st2_def st1 updStep_def fun_eq_iff)
          have ob: "offPath E k ?b"
            unfolding offPath_def
          proof (intro allI impI)
            fix x t
            assume t: "heap ?b x = Some t \<and> \<not> created t"
            show "\<not> readable E k (drvPath t)"
            proof (cases "x = nextId st")
              case True
              with t hb have "drvPath t = p" by (auto simp: initStep_def newStep_def)
              with nr show ?thesis by simp
            next
              case False
              with t hb have "heap st x = Some t" by simp
              with t offPath_less [OF Suc.prems(6)] show ?thesis
                unfolding offPath_def by blast
            qed
          qed
          have "\<exists>st4. createDeps ?f (nextId st) (inputDrvs d) ?b = Inr st4"
          proof (rule createDeps_total [where f = ?f and E = E and k = k and d = d])
            fix i s
            assume "i \<in> set (inputDrvs d)" "fresh s" "entriesOk s" "bounded s" "offPath E k s"
            with d(2) m(2) show "\<exists>r s'. createStep m' E i None (Some (nextId st)) s = Inr (r, s')"
              using Suc.IH by blast
          next
            fix i s r s'
            assume "fresh s" "entriesOk s" "bounded s"
              "createStep m' E i None (Some (nextId st)) s = Inr (r, s')"
            then show "stepRun E i s r s'" by (rule createStep_stepRun)
          next
            show "building E (nextId st) p d [] ?b" by (rule bs(1))
          qed (simp_all add: ob)
          then obtain st4 where cd: "createDeps ?f (nextId st) (inputDrvs d) ?b = Inr st4" ..
          have "building E (nextId st) p d ([] @ inputDrvs d) st4"
          proof (rule building_createDeps [where f = ?f and st = ?b])
            fix i s r s'
            assume "fresh s" "entriesOk s" "bounded s"
              "createStep m' E i None (Some (nextId st)) s = Inr (r, s')"
            then show "stepRun E i s r s'" by (rule createStep_stepRun)
          qed (simp_all add: bs(1) cd)
          then obtain s where "heap st4 (nextId st) = Some s" "\<not> created s"
            unfolding building_def by blast
          then have "\<exists>res st'. finishStep (nextId st) st4 = Inr (res, st')"
            by (simp add: finishStep_def Let_def)
          with nf i \<open>isNew\<close> rd False cd show ?thesis
            by (simp add: m Let_def st3_def a)
        qed
      qed
    qed
  qed
qed

subsection \<open>The check of the outputs\<close>

text \<open>
  C4. \<^verbatim>\<open>createStep\<close> is called for a derivation that can be read, whose path is not in
  \<open>finishedDrvs\<close> and for which the interner holds no Step that is alive, so that a new
  Step is initialised and the validity of the outputs is checked. When every declared
  output path is valid, the call returns the null pointer and records the path in
  \<open>finishedDrvs\<close>; \<open>newSteps\<close> and \<open>newRunnable\<close> are as before, the new Step is gone, and
  any later call for the path with these \<open>finishedDrvs\<close> returns the null pointer at
  once, without changing the state. When some output is not valid, a call that returns
  has put the new Step into \<open>newSteps\<close> and returns it; and the call does return when
  no identity is dangling, the entries of \<open>steps\<close> carry the paths of their Steps,
  \<open>newRunnable\<close> and \<open>newSteps\<close> hold identities that were handed out, the derivations of
  the inputs can be read, transitively and within the depth that the bound of the
  recursion allows, and no Step under construction stands for one of them.
\<close>

theorem createStep_all_outputs_valid:
  assumes notFin: "p \<notin> set (finishedDrvs st)"
    and new: "steps st p = None \<or> (\<exists>w. steps st p = Some w \<and> heap st w = None)"
    and drv: "readDerivation E p = Some d"
  shows "(allValid E d \<longrightarrow>
            (\<exists>st'. createStep (Suc n) E p rb rs st = Inr (None, st') \<and>
                   finishedDrvs st' = List.insert p (finishedDrvs st) \<and>
                   newSteps st' = newSteps st \<and> newRunnable st' = newRunnable st \<and>
                   heap st' = (heap st)(nextId st := None) \<and>
                   (\<forall>m rb' rs'. createStep (Suc m) E p rb' rs' st' = Inr (None, st')))) \<and>
         (\<not> allValid E d \<longrightarrow>
            (\<forall>res st'. createStep (Suc n) E p rb rs st = Inr (res, st') \<longrightarrow>
               res = Some (nextId st) \<and> nextId st \<in> set (newSteps st')) \<and>
            (fresh st \<and> entriesOk st \<and> bounded st \<and> offPath E (Suc n) st \<and>
             readable E (Suc n) p \<longrightarrow>
               (\<exists>st'. createStep (Suc n) E p rb rs st = Inr (Some (nextId st), st') \<and>
                      nextId st \<in> set (newSteps st'))))"
proof -
  note step = createStep_new_step [OF notFin new drv, of n rb rs]
  have "\<exists>st'. createStep (Suc n) E p rb rs st = Inr (Some (nextId st), st') \<and>
              nextId st \<in> set (newSteps st')"
    if inv: "\<not> allValid E d" "fresh st" "entriesOk st" "bounded st" "offPath E (Suc n) st"
      "readable E (Suc n) p"
  proof -
    from createStep_total [OF inv(6) le_refl inv(2-5), of rb rs]
    obtain res st' where run: "createStep (Suc n) E p rb rs st = Inr (res, st')" by blast
    with step inv(1) have "res = Some (nextId st)" "nextId st \<in> set (newSteps st')"
      by blast+
    with run show ?thesis by blast
  qed
  with step show ?thesis by blast
qed

theorem createStep_all_outputs_valid_witness:
  "''/d/cached'' \<notin> set (finishedDrvs cachedState) \<and>
   steps cachedState ''/d/cached'' = None \<and>
   readDerivation cachedEnv ''/d/cached'' = Some (derivation [''/o/cached''] []) \<and>
   allValid cachedEnv (derivation [''/o/cached''] []) \<and>
   (\<exists>st'. createStep (Suc 0) cachedEnv ''/d/cached'' (Some 2) None cachedState = Inr (None, st') \<and>
          finishedDrvs st' = [''/d/cached''] \<and> newSteps st' = [] \<and> newRunnable st' = [] \<and>
          createStep (Suc 0) cachedEnv ''/d/cached'' (Some 2) None st' = Inr (None, st')) \<and>
   ''/d/A'' \<notin> set (finishedDrvs emptyState) \<and> steps emptyState ''/d/A'' = None \<and>
   readDerivation sharedEnv ''/d/A'' = Some (derivation [''/o/A''] [''/d/C'']) \<and>
   \<not> allValid sharedEnv (derivation [''/o/A''] [''/d/C'']) \<and>
   fresh emptyState \<and> entriesOk emptyState \<and> bounded emptyState \<and>
   offPath sharedEnv (Suc (Suc 0)) emptyState \<and> readable sharedEnv (Suc (Suc 0)) ''/d/A'' \<and>
   (\<exists>st'. createStep (Suc (Suc 0)) sharedEnv ''/d/A'' (Some 5) None emptyState
            = Inr (Some 0, st') \<and> 0 \<in> set (newSteps st'))"
proof -
  let ?d = "derivation [''/o/cached''] []"
  let ?e = "derivation [''/o/A''] [''/d/C'']"
  have notFin: "''/d/cached'' \<notin> set (finishedDrvs cachedState)"
    by (simp add: cachedState_def emptyState_def)
  have none: "steps cachedState ''/d/cached'' = None"
    by (simp add: cachedState_def emptyState_def)
  then have new: "steps cachedState ''/d/cached'' = None \<or>
      (\<exists>w. steps cachedState ''/d/cached'' = Some w \<and> heap cachedState w = None)" ..
  have drv: "readDerivation cachedEnv ''/d/cached'' = Some ?d"
    by (simp add: cachedEnv_def storeEnv_def)
  have valid: "allValid cachedEnv ?d"
    by (simp add: allValid_def cachedEnv_def storeEnv_def derivation_def)
  from createStep_all_outputs_valid [OF notFin new drv, of 0 "Some 2" None] valid
  obtain st' where st':
    "createStep (Suc 0) cachedEnv ''/d/cached'' (Some 2) None cachedState = Inr (None, st')"
    "finishedDrvs st' = List.insert ''/d/cached'' (finishedDrvs cachedState)"
    "newSteps st' = newSteps cachedState" "newRunnable st' = newRunnable cachedState"
    "\<forall>m rb' rs'. createStep (Suc m) cachedEnv ''/d/cached'' rb' rs' st' = Inr (None, st')"
    by blast
  have l: "finishedDrvs st' = [''/d/cached'']" "newSteps st' = []" "newRunnable st' = []"
    unfolding st' by (simp_all add: cachedState_def emptyState_def)
  have notFin2: "''/d/A'' \<notin> set (finishedDrvs emptyState)"
    by (simp add: emptyState_def)
  have none2: "steps emptyState ''/d/A'' = None"
    by (simp add: emptyState_def)
  then have new2: "steps emptyState ''/d/A'' = None \<or>
      (\<exists>w. steps emptyState ''/d/A'' = Some w \<and> heap emptyState w = None)" ..
  have drv2: "readDerivation sharedEnv ''/d/A'' = Some ?e"
    by (simp add: sharedEnv_def storeEnv_def)
  have invalid: "\<not> allValid sharedEnv ?e"
    by (simp add: allValid_def sharedEnv_def storeEnv_def derivation_def)
  have f: "fresh emptyState" by (simp add: fresh_def emptyState_def)
  have e: "entriesOk emptyState" by (simp add: entriesOk_def emptyState_def)
  have b: "bounded emptyState" by (simp add: bounded_def emptyState_def)
  have o: "offPath sharedEnv (Suc (Suc 0)) emptyState"
    by (simp add: offPath_def emptyState_def)
  have r: "readable sharedEnv (Suc (Suc 0)) ''/d/A''"
    by (simp add: sharedEnv_def storeEnv_def derivation_def)
  from createStep_all_outputs_valid [OF notFin2 new2 drv2, of "Suc 0" "Some 5" None]
    invalid f e b o r
  obtain st2 where st2:
    "createStep (Suc (Suc 0)) sharedEnv ''/d/A'' (Some 5) None emptyState
       = Inr (Some (nextId emptyState), st2)"
    "nextId emptyState \<in> set (newSteps st2)"
    by blast
  have n: "nextId emptyState = 0" by (simp add: emptyState_def)
  have "\<exists>st'. createStep (Suc (Suc 0)) sharedEnv ''/d/A'' (Some 5) None emptyState
            = Inr (Some 0, st') \<and> 0 \<in> set (newSteps st')"
    using st2 unfolding n by (intro exI [where x = st2]) simp
  moreover have "\<exists>st'. createStep (Suc 0) cachedEnv ''/d/cached'' (Some 2) None cachedState
       = Inr (None, st') \<and>
     finishedDrvs st' = [''/d/cached''] \<and> newSteps st' = [] \<and> newRunnable st' = [] \<and>
     createStep (Suc 0) cachedEnv ''/d/cached'' (Some 2) None st' = Inr (None, st')"
    using st'(1) st'(5) l by (intro exI [where x = st']) simp
  ultimately show ?thesis
    using notFin none drv valid notFin2 none2 drv2 invalid f e b o r
    by (intro conjI)
qed

text \<open>The interner holds a Step for \<^verbatim>\<open>/d/X\<close> that is alive: \<^verbatim>\<open>createStep\<close> returns it
  whether the output of the derivation is valid or not, and neither \<open>finishedDrvs\<close> nor
  \<open>newSteps\<close> changes.\<close>

theorem createStep_interned_counterexample:
  "readDerivation (liveEnv [''/o/X'']) ''/d/X'' = Some (derivation [''/o/X''] []) \<and>
   allValid (liveEnv [''/o/X'']) (derivation [''/o/X''] []) \<and>
   (\<exists>st'. createStep (Suc 0) (liveEnv [''/o/X'']) ''/d/X'' None None internedState
            = Inr (Some 0, st') \<and>
          finishedDrvs st' = [] \<and> newSteps st' = []) \<and>
   readDerivation (liveEnv []) ''/d/X'' = Some (derivation [''/o/X''] []) \<and>
   \<not> allValid (liveEnv []) (derivation [''/o/X''] []) \<and>
   (\<exists>st'. createStep (Suc 0) (liveEnv []) ''/d/X'' None None internedState
            = Inr (Some 0, st') \<and>
          finishedDrvs st' = [] \<and> newSteps st' = [])"
proof -
  have old: "steps internedState ''/d/X'' = Some 0"
    "heap internedState 0 = Some ((newStep ''/d/X'')\<lparr>created := True\<rparr>)"
    "created ((newStep ''/d/X'')\<lparr>created := True\<rparr>)"
    by (simp_all add: internedState_def emptyState_def)
  note i = internStep_old [OF old, of None None]
  have nf: "''/d/X'' \<notin> set (finishedDrvs internedState)"
    by (simp add: internedState_def emptyState_def)
  let ?st = "internedState\<lparr>heap := (heap internedState)
      (0 \<mapsto> linkBack None None ((newStep ''/d/X'')\<lparr>created := True\<rparr>))\<rparr>"
  have run: "createStep (Suc 0) E ''/d/X'' None None internedState = Inr (Some 0, ?st)" for E
    using nf i by simp
  have l: "finishedDrvs ?st = []" "newSteps ?st = []"
    by (simp_all add: internedState_def emptyState_def)
  have "\<exists>st'. createStep (Suc 0) E ''/d/X'' None None internedState = Inr (Some 0, st') \<and>
          finishedDrvs st' = [] \<and> newSteps st' = []" for E
    using run l by (intro exI [where x = ?st]) simp
  moreover have "readDerivation (liveEnv v) ''/d/X'' = Some (derivation [''/o/X''] [])" for v
    by (simp add: liveEnv_def storeEnv_def)
  moreover have "allValid (liveEnv [''/o/X'']) (derivation [''/o/X''] [])"
    "\<not> allValid (liveEnv []) (derivation [''/o/X''] [])"
    by (simp_all add: allValid_def liveEnv_def storeEnv_def derivation_def)
  ultimately show ?thesis by (intro conjI)
qed

subsection \<open>The counters of the drain loop\<close>

lemma createStep_None_read:
  assumes "createStep n E p rb rs st = Inr (None, st')" "p \<notin> set (finishedDrvs st)"
  shows "\<exists>d. readDerivation E p = Some d"
proof (cases n)
  case 0
  with assms show ?thesis by simp
next
  case (Suc m)
  with assms obtain a st1 d st2 where "readDrv E p st1 = Inr (d, st2)"
    by (auto split: sum.splits if_splits)
  then show ?thesis by (auto simp: readDrv_def split: option.splits)
qed

lemma piggyback_idle:
  "newBuilds st = [] \<Longrightarrow> piggyback k f r st = Inr st' \<Longrightarrow> st' = st"
  by (cases k) (auto split: option.splits)

lemma forEachStep_piggyback_idle:
  "newBuilds st = [] \<Longrightarrow> forEachStep (piggyback k f) rs st = Inr st' \<Longrightarrow> st' = st"
proof (induction rs)
  case Nil
  then show ?case by simp
next
  case (Cons r rs)
  from Cons.prems(2) obtain s1 where s1: "piggyback k f r st = Inr s1"
    "forEachStep (piggyback k f) rs s1 = Inr st'"
    by (auto split: sum.splits)
  from piggyback_idle [OF Cons.prems(1) s1(1)] have "s1 = st" .
  with Cons.IH [OF Cons.prems(1)] s1(2) show ?case by simp
qed

lemma forEachStep_piggyback_alive:
  "newBuilds st = [] \<Longrightarrow> \<forall>r \<in> set rs. heap st r \<noteq> None \<Longrightarrow>
   forEachStep (piggyback (Suc k) f) rs st = Inr st"
  by (induction rs) auto

lemma fold_makeRunnable_fields:
  "newBuilds (fold makeRunnable rs st) = newBuilds st"
  "nrBuildsRead (fold makeRunnable rs st) = nrBuildsRead st"
  "nrBuildsDone (fold makeRunnable rs st) = nrBuildsDone st"
  "nrAdded (fold makeRunnable rs st) = nrAdded st"
  by (induction rs arbitrary: st) (simp_all add: makeRunnable_def)

lemma drainQueue_counts:
  "drainQueue n E s = Inr s' \<Longrightarrow>
   nrBuildsRead s' = nrBuildsRead s + length (newBuilds s) \<and> newBuilds s' = []"
proof (induction n arbitrary: s)
  case 0
  then show ?case by simp
next
  case (Suc n)
  show ?case
  proof (cases "newBuilds s")
    case Nil
    with Suc.prems show ?thesis by simp
  next
    case (Cons x rest)
    obtain p build where x: "x = (p, build)" by (cases x)
    let ?s0 = "(clearRunnable (s\<lparr>newBuilds := rest\<rparr>))\<lparr>nrAdded := 0\<rparr>"
    from Suc.prems Cons x obtain b s1 where c: "createBuild n E build ?s0 = Inr (b, s1)"
      and d: "drainQueue n E ((fold makeRunnable (iterSteps E (newRunnable s1)) s1)
                    \<lparr>nrBuildsRead := nrBuildsRead s1 + nrAdded s1\<rparr>) = Inr s'"
      by (auto split: sum.splits)
    from ingestFrame_createBuild [OF c] obtain l where
      f: "nrBuildsRead s1 = nrBuildsRead ?s0" "working ?s0 = working s1 + mset l"
        "nrAdded s1 = nrAdded ?s0 + length ([bid build] @ l)"
      unfolding ingestFrame_def coreFrame_def by blast
    from f(2) have "size (working ?s0) = size (working s1) + length l"
      by (metis size_union size_mset)
    then have len: "length rest = length (newBuilds s1) + length l"
      by (simp add: working_def clearRunnable_def release_def)
    from Suc.IH [OF d] have "nrBuildsRead s' = nrBuildsRead s1 + nrAdded s1 + length (newBuilds s1)"
      "newBuilds s' = []"
      by (simp_all add: fold_makeRunnable_fields)
    with f(1,3) len Cons show ?thesis
      by (simp add: clearRunnable_def release_def)
  qed
qed

lemma drainQueue_single:
  assumes nb: "newBuilds s = [(p, build)]"
    and c: "createBuild (Suc n) E build ((clearRunnable (s\<lparr>newBuilds := []\<rparr>))\<lparr>nrAdded := 0\<rparr>)
              = Inr (bb, s1)"
  shows "\<exists>s'. drainQueue (Suc (Suc n)) E s = Inr s' \<and> nrBuildsRead s' = Suc (nrBuildsRead s) \<and>
              nrBuildsDone s' = nrBuildsDone s1"
proof -
  let ?s0 = "(clearRunnable (s\<lparr>newBuilds := []\<rparr>))\<lparr>nrAdded := 0\<rparr>"
  let ?s2 = "(fold makeRunnable (iterSteps E (newRunnable s1)) s1)
                    \<lparr>nrBuildsRead := nrBuildsRead s1 + nrAdded s1\<rparr>"
  have e0: "newBuilds ?s0 = []" by (simp add: clearRunnable_def release_def)
  from ingestFrame_createBuild [OF c] have "subseq (newBuilds s1) (newBuilds ?s0)"
    unfolding ingestFrame_def coreFrame_def by blast
  with e0 have e1: "newBuilds s1 = []" by simp
  then have "newBuilds ?s2 = []" by (simp add: fold_makeRunnable_fields)
  then have "drainQueue (Suc n) E ?s2 = Inr ?s2" by simp
  with nb c have run: "drainQueue (Suc (Suc n)) E s = Inr ?s2" by simp
  from drainQueue_counts [OF run] nb have "nrBuildsRead ?s2 = Suc (nrBuildsRead s)" by simp
  moreover have "nrBuildsDone ?s2 = nrBuildsDone s1" by (simp add: fold_makeRunnable_fields)
  ultimately show ?thesis using run by (intro exI [where x = ?s2]) simp
qed

lemma createBuild_gc_counters:
  assumes "\<not> finishedInDB build" "\<not> isValidPath E (bdrvPath build)"
  shows "\<exists>b' st'. createBuild (Suc n) E build st = Inr (b', st') \<and> finishedInDB b' \<and>
           nrBuildsDone st' = Suc (nrBuildsDone st) \<and> nrAdded st' = Suc (nrAdded st) \<and>
           nrBuildsRead st' = nrBuildsRead st"
  using assms by (simp add: Let_def abortGCed_def commit_def)

lemma createBuild_cached_counters:
  assumes v: "isValidPath E (bdrvPath build)"
    and c: "createStep n E (bdrvPath build) (Some (bid build)) None
              (st\<lparr>loaded := loaded st @ [bid build], nrAdded := Suc (nrAdded st),
                  newSteps := [], finishedDrvs := []\<rparr>) = Inr (None, st1)"
  shows "\<exists>b' st'. createBuild (Suc n) E build st = Inr (b', st') \<and> finishedInDB b' \<and>
           nrBuildsDone st' = nrBuildsDone st \<and> nrAdded st' = Suc (nrAdded st) \<and>
           nrBuildsRead st' = nrBuildsRead st \<and>
           (\<exists>out. txns st' =
              txns st @ [[MarkSucceededBuild (bid build) out True (now E) (now E)]])"
proof -
  from createStep_None [OF c] have "newSteps st1 = []" by simp
  then have loop: "forEachStep (piggyback n (createBuild n E)) (iterSteps E (newSteps st1)) st1
      = Inr st1"
    by (simp add: iterSteps_def)
  from createStep_None_read [OF c] obtain d where d: "readDerivation E (bdrvPath build) = Some d"
    by auto
  let ?st3 = "(commit [MarkSucceededBuild (bid build) (getBuildOutput E d) True (now E) (now E)]
                 (st1\<lparr>drvReads := drvReads st1 @ [bdrvPath build]\<rparr>))
               \<lparr>dbBuilds := updateSucceeded (bid build) True (now E) (now E) (dbBuilds st1)\<rparr>"
  let ?st' = "leaveBuild (newSteps st) (finishedDrvs st) ?st3"
  have c3: "concludeBuild E build None st1 = Inr (build\<lparr>finishedInDB := True\<rparr>, ?st3)"
    using d by (simp add: concludeBuild_def cachedSuccess_def readDrv_def)
  from createBuild_Suc_valid [OF v c loop] c3
  have run: "createBuild (Suc n) E build st = Inr (build\<lparr>finishedInDB := True\<rparr>, ?st')"
    by simp
  from stepFrame_createStep [OF c] have f: "nrBuildsDone st1 = nrBuildsDone st"
    "nrAdded st1 = Suc (nrAdded st)" "txns st1 = txns st" "nrBuildsRead st1 = nrBuildsRead st"
    by (simp_all add: stepFrame_def)
  have "nrBuildsDone ?st' = nrBuildsDone st" "nrAdded ?st' = Suc (nrAdded st)"
    "nrBuildsRead ?st' = nrBuildsRead st"
    "txns ?st' = txns st @
       [[MarkSucceededBuild (bid build) (getBuildOutput E d) True (now E) (now E)]]"
    using f by (simp_all add: leaveBuild_def release_def commit_def)
  with run show ?thesis
    by (intro exI [where x = "build\<lparr>finishedInDB := True\<rparr>"] exI [where x = ?st'] conjI
        exI [where x = "getBuildOutput E d"]) simp_all
qed

lemma createBuild_failed_counters:
  assumes nf: "\<not> finishedInDB build"
    and v: "isValidPath E (bdrvPath build)"
    and c: "createStep n E (bdrvPath build) (Some (bid build)) None
              (st\<lparr>loaded := loaded st @ [bid build], nrAdded := Suc (nrAdded st),
                  newSteps := [], finishedDrvs := []\<rparr>) = Inr (Some root, st1)"
    and loop: "forEachStep (piggyback n (createBuild n E)) (iterSteps E (newSteps st1)) st1
                 = Inr st2"
    and order: "iterSteps E (newSteps st2) = pre @ r # post"
    and good: "\<forall>x \<in> set pre. \<exists>t. heap st2 x = Some t \<and> \<not> checkCachedFailure E t \<and> supported E t"
    and r: "heap st2 r = Some s"
    and bad: "checkCachedFailure E s \<or> \<not> supported E s"
  shows "\<exists>b' st'. createBuild (Suc n) E build st = Inr (b', st') \<and> finishedInDB b' \<and>
           nrBuildsDone st' = Suc (nrBuildsDone st2) \<and> nrBuildsDone st \<le> nrBuildsDone st2 \<and>
           nrAdded st' = nrAdded st2 \<and> nrAdded st < nrAdded st2 \<and>
           nrBuildsRead st' = nrBuildsRead st"
proof -
  obtain bs bss where cl: "classifyStep E root r s = (bs, bss)" by (cases "classifyStep E root r s")
  with bad have nb: "bs \<noteq> bsSuccess"
    by (auto simp: classifyStep_eq split: if_splits)
  have g: "\<forall>x \<in> set pre. \<exists>t. heap st2 x = Some t \<and> fst (classifyStep E root x t) = bsSuccess"
    using good by (auto simp: classifyStep_eq)
  from classifySteps_first_bad [OF r cl nb g, of build post] order
  have "classifySteps E root build (iterSteps E (newSteps st2)) st2 =
          Inr (True, failBuild E build r bs bss st2)"
    by simp
  then have c3: "concludeBuild E build (Some root) st2 = Inr (failBuild E build r bs bss st2)"
    by (simp add: concludeBuild_def split: prod.splits)
  let ?b = "fst (failBuild E build r bs bss st2)" and ?st3 = "snd (failBuild E build r bs bss st2)"
  let ?st' = "leaveBuild (newSteps st) (finishedDrvs st) ?st3"
  from createBuild_Suc_valid [OF v c loop] c3
  have run: "createBuild (Suc n) E build st = Inr (?b, ?st')"
    by (simp split: prod.splits)
  have fb: "finishedInDB ?b" "nrBuildsDone ?st3 = Suc (nrBuildsDone st2)"
    "nrAdded ?st3 = nrAdded st2" "nrBuildsRead ?st3 = nrBuildsRead st2"
    using nf by (simp_all add: failBuild_def commit_def)
  from stepFrame_createStep [OF c] have f1: "nrBuildsDone st1 = nrBuildsDone st"
    "nrAdded st1 = Suc (nrAdded st)" "nrBuildsRead st1 = nrBuildsRead st"
    by (simp_all add: stepFrame_def)
  from coreFrame_piggyback_pass [OF loop] have f2: "nrBuildsDone st1 \<le> nrBuildsDone st2"
    "nrAdded st1 \<le> nrAdded st2" "nrBuildsRead st2 = nrBuildsRead st1"
    by (auto simp: coreFrame_def)
  have "nrBuildsDone ?st' = Suc (nrBuildsDone st2)" "nrAdded ?st' = nrAdded st2"
    "nrBuildsRead ?st' = nrBuildsRead st"
    using fb f1 f2 by (simp_all add: leaveBuild_def release_def)
  with run fb(1) f1 f2 show ?thesis
    by (intro exI [where x = ?b] exI [where x = ?st'] conjI) simp_all
qed

text \<open>
  C10. The paths of \<^verbatim>\<open>createBuild\<close> for a build that is not finished in the database.
  When the derivation is not a valid path, the call returns and \<open>nrBuildsDone\<close> is one
  more. When \<^verbatim>\<open>createStep\<close> returns no step for the root, the call returns and
  \<open>nrBuildsDone\<close> is as before: it sets \<open>finishedInDB\<close> and commits the transaction of
  \<^verbatim>\<open>markSucceededBuild\<close>, nothing else. When a step was returned and the classification
  meets a bad step, the call returns with \<open>finishedInDB\<close> set and \<open>nrBuildsDone\<close> one more
  than after the piggyback pass. On each of these paths the call counts itself in
  \<open>nrAdded\<close> and leaves \<open>nrBuildsRead\<close> alone, as every call that returns does. The drain
  loop adds \<open>nrAdded\<close> to \<open>nrBuildsRead\<close>: when it returns, \<open>nrBuildsRead\<close> has grown by the
  number of builds that were in the working set, and for a working set that holds
  this build only it does return, with \<open>nrBuildsRead\<close> one more, on whichever path
  \<^verbatim>\<open>createBuild\<close> returned.
\<close>

theorem createBuild_counters:
  assumes nf: "\<not> finishedInDB build"
  shows "(\<not> isValidPath E (bdrvPath build) \<longrightarrow>
            (\<exists>b' st'. createBuild (Suc n) E build st = Inr (b', st') \<and> finishedInDB b' \<and>
               nrBuildsDone st' = Suc (nrBuildsDone st) \<and> nrAdded st' = Suc (nrAdded st) \<and>
               nrBuildsRead st' = nrBuildsRead st)) \<and>
         (\<forall>st1.
            isValidPath E (bdrvPath build) \<and>
            createStep n E (bdrvPath build) (Some (bid build)) None
              (st\<lparr>loaded := loaded st @ [bid build], nrAdded := Suc (nrAdded st),
                  newSteps := [], finishedDrvs := []\<rparr>) = Inr (None, st1) \<longrightarrow>
            (\<exists>b' st'. createBuild (Suc n) E build st = Inr (b', st') \<and> finishedInDB b' \<and>
               nrBuildsDone st' = nrBuildsDone st \<and> nrAdded st' = Suc (nrAdded st) \<and>
               nrBuildsRead st' = nrBuildsRead st \<and>
               (\<exists>out. txns st' =
                  txns st @ [[MarkSucceededBuild (bid build) out True (now E) (now E)]]))) \<and>
         (\<forall>root st1 st2 pre r post s.
            isValidPath E (bdrvPath build) \<and>
            createStep n E (bdrvPath build) (Some (bid build)) None
              (st\<lparr>loaded := loaded st @ [bid build], nrAdded := Suc (nrAdded st),
                  newSteps := [], finishedDrvs := []\<rparr>) = Inr (Some root, st1) \<and>
            forEachStep (piggyback n (createBuild n E)) (iterSteps E (newSteps st1)) st1 = Inr st2 \<and>
            iterSteps E (newSteps st2) = pre @ r # post \<and>
            (\<forall>x \<in> set pre. \<exists>t. heap st2 x = Some t \<and> \<not> checkCachedFailure E t \<and> supported E t) \<and>
            heap st2 r = Some s \<and> (checkCachedFailure E s \<or> \<not> supported E s) \<longrightarrow>
            (\<exists>b' st'. createBuild (Suc n) E build st = Inr (b', st') \<and> finishedInDB b' \<and>
               nrBuildsDone st' = Suc (nrBuildsDone st2) \<and> nrBuildsDone st \<le> nrBuildsDone st2 \<and>
               nrAdded st' = nrAdded st2 \<and> nrAdded st < nrAdded st2 \<and>
               nrBuildsRead st' = nrBuildsRead st)) \<and>
         (\<forall>b' st'. createBuild (Suc n) E build st = Inr (b', st') \<longrightarrow>
            nrAdded st < nrAdded st' \<and> nrBuildsRead st' = nrBuildsRead st) \<and>
         (\<forall>m s s'. drainQueue m E s = Inr s' \<longrightarrow>
            nrBuildsRead s' = nrBuildsRead s + length (newBuilds s)) \<and>
         (\<forall>p s bb s1.
            newBuilds s = [(p, build)] \<and>
            createBuild (Suc n) E build ((clearRunnable (s\<lparr>newBuilds := []\<rparr>))\<lparr>nrAdded := 0\<rparr>)
              = Inr (bb, s1) \<longrightarrow>
            (\<exists>s'. drainQueue (Suc (Suc n)) E s = Inr s' \<and>
                  nrBuildsRead s' = Suc (nrBuildsRead s) \<and> nrBuildsDone s' = nrBuildsDone s1))"
proof (intro conjI allI impI)
  show "\<exists>b' st'. createBuild (Suc n) E build st = Inr (b', st') \<and> finishedInDB b' \<and>
               nrBuildsDone st' = Suc (nrBuildsDone st) \<and> nrAdded st' = Suc (nrAdded st) \<and>
               nrBuildsRead st' = nrBuildsRead st"
    if "\<not> isValidPath E (bdrvPath build)"
    using nf that by (rule createBuild_gc_counters)
  show "\<exists>b' st'. createBuild (Suc n) E build st = Inr (b', st') \<and> finishedInDB b' \<and>
               nrBuildsDone st' = nrBuildsDone st \<and> nrAdded st' = Suc (nrAdded st) \<and>
               nrBuildsRead st' = nrBuildsRead st \<and>
               (\<exists>out. txns st' =
                  txns st @ [[MarkSucceededBuild (bid build) out True (now E) (now E)]])"
    if "isValidPath E (bdrvPath build) \<and>
            createStep n E (bdrvPath build) (Some (bid build)) None
              (st\<lparr>loaded := loaded st @ [bid build], nrAdded := Suc (nrAdded st),
                  newSteps := [], finishedDrvs := []\<rparr>) = Inr (None, st1)" for st1
  proof (rule createBuild_cached_counters)
    from that show "isValidPath E (bdrvPath build)" by (rule conjunct1)
    from that show "createStep n E (bdrvPath build) (Some (bid build)) None
              (st\<lparr>loaded := loaded st @ [bid build], nrAdded := Suc (nrAdded st),
                  newSteps := [], finishedDrvs := []\<rparr>) = Inr (None, st1)"
      by (rule conjunct2)
  qed
  show "\<exists>b' st'. createBuild (Suc n) E build st = Inr (b', st') \<and> finishedInDB b' \<and>
               nrBuildsDone st' = Suc (nrBuildsDone st2) \<and> nrBuildsDone st \<le> nrBuildsDone st2 \<and>
               nrAdded st' = nrAdded st2 \<and> nrAdded st < nrAdded st2 \<and>
               nrBuildsRead st' = nrBuildsRead st"
    if h: "isValidPath E (bdrvPath build) \<and>
            createStep n E (bdrvPath build) (Some (bid build)) None
              (st\<lparr>loaded := loaded st @ [bid build], nrAdded := Suc (nrAdded st),
                  newSteps := [], finishedDrvs := []\<rparr>) = Inr (Some root, st1) \<and>
            forEachStep (piggyback n (createBuild n E)) (iterSteps E (newSteps st1)) st1 = Inr st2 \<and>
            iterSteps E (newSteps st2) = pre @ r # post \<and>
            (\<forall>x \<in> set pre. \<exists>t. heap st2 x = Some t \<and> \<not> checkCachedFailure E t \<and> supported E t) \<and>
            heap st2 r = Some s \<and> (checkCachedFailure E s \<or> \<not> supported E s)"
    for root st1 st2 pre r post s
  proof (rule createBuild_failed_counters [OF nf])
    from h show "isValidPath E (bdrvPath build)" by simp
    from h show "createStep n E (bdrvPath build) (Some (bid build)) None
              (st\<lparr>loaded := loaded st @ [bid build], nrAdded := Suc (nrAdded st),
                  newSteps := [], finishedDrvs := []\<rparr>) = Inr (Some root, st1)" by simp
    from h show "forEachStep (piggyback n (createBuild n E)) (iterSteps E (newSteps st1)) st1
      = Inr st2" by simp
    from h show "iterSteps E (newSteps st2) = pre @ r # post" by simp
    from h show "\<forall>x \<in> set pre. \<exists>t. heap st2 x = Some t \<and> \<not> checkCachedFailure E t \<and>
      supported E t" by simp
    from h show "heap st2 r = Some s" by simp
    from h show "checkCachedFailure E s \<or> \<not> supported E s" by simp
  qed
  show "nrAdded st < nrAdded st'" "nrBuildsRead st' = nrBuildsRead st"
    if "createBuild (Suc n) E build st = Inr (b', st')" for b' st'
    using ingestFrame_createBuild [OF that] by (auto simp: ingestFrame_def coreFrame_def)
  show "nrBuildsRead s' = nrBuildsRead s + length (newBuilds s)"
    if "drainQueue m E s = Inr s'" for m s s'
    using drainQueue_counts [OF that] by simp
  show "\<exists>s'. drainQueue (Suc (Suc n)) E s = Inr s' \<and>
                  nrBuildsRead s' = Suc (nrBuildsRead s) \<and> nrBuildsDone s' = nrBuildsDone s1"
    if "newBuilds s = [(p, build)] \<and>
            createBuild (Suc n) E build ((clearRunnable (s\<lparr>newBuilds := []\<rparr>))\<lparr>nrAdded := 0\<rparr>)
              = Inr (bb, s1)" for p s bb s1
  proof (rule drainQueue_single)
    from that show "newBuilds s = [(p, build)]" by (rule conjunct1)
    from that show "createBuild (Suc n) E build
        ((clearRunnable (s\<lparr>newBuilds := []\<rparr>))\<lparr>nrAdded := 0\<rparr>) = Inr (bb, s1)"
      by (rule conjunct2)
  qed
qed


theorem createBuild_counters_witness:
  "\<not> finishedInDB (queuedBuild 3 ''/d/gone'') \<and>
   \<not> isValidPath (storeEnv [] []) (bdrvPath (queuedBuild 3 ''/d/gone'')) \<and>
   (\<exists>s'. drainQueue (Suc (Suc 0)) (storeEnv [] [])
            (goneState\<lparr>newBuilds := [(''/d/gone'', queuedBuild 3 ''/d/gone'')]\<rparr>) = Inr s' \<and>
         nrBuildsDone s' = 1 \<and> nrBuildsRead s' = 1) \<and>
   \<not> finishedInDB (queuedBuild 2 ''/d/cached'') \<and>
   isValidPath cachedEnv (bdrvPath (queuedBuild 2 ''/d/cached'')) \<and>
   (\<exists>s'. drainQueue (Suc (Suc (Suc 0))) cachedEnv
            (cachedState\<lparr>newBuilds := [(''/d/cached'', queuedBuild 2 ''/d/cached'')]\<rparr>) = Inr s' \<and>
         nrBuildsDone s' = 0 \<and> nrBuildsRead s' = 1) \<and>
   \<not> finishedInDB (queuedBuild 4 ''/d/arm'') \<and>
   isValidPath armEnv (bdrvPath (queuedBuild 4 ''/d/arm'')) \<and>
   (\<exists>s'. drainQueue (Suc (Suc (Suc 0))) armEnv
            (armState\<lparr>newBuilds := [(''/d/arm'', queuedBuild 4 ''/d/arm'')]\<rparr>) = Inr s' \<and>
         nrBuildsDone s' = 1 \<and> nrBuildsRead s' = 1)"
proof -
  let ?E1 = "storeEnv [] []" and ?b1 = "queuedBuild 3 ''/d/gone''"
  let ?s1 = "goneState\<lparr>newBuilds := [(''/d/gone'', ?b1)]\<rparr>"
  let ?z1 = "(clearRunnable (?s1\<lparr>newBuilds := []\<rparr>))\<lparr>nrAdded := 0\<rparr>"
  have nf1: "\<not> finishedInDB ?b1" by (simp add: queuedBuild_def buildOfRow_def)
  have gone: "\<not> isValidPath ?E1 (bdrvPath ?b1)" by (simp add: storeEnv_def)
  note t1 = createBuild_counters [OF nf1, of ?E1 0 ?z1]
  from t1 [THEN conjunct1, rule_format, OF gone]
  obtain b1 u1 where run1: "createBuild (Suc 0) ?E1 ?b1 ?z1 = Inr (b1, u1)"
    and d1: "nrBuildsDone u1 = Suc (nrBuildsDone ?z1)"
    by blast
  have nb1: "newBuilds ?s1 = [(''/d/gone'', ?b1)]" by simp
  from t1 [THEN conjunct2, THEN conjunct2, THEN conjunct2, THEN conjunct2, THEN conjunct2,
      rule_format, OF conjI, OF nb1 run1]
  obtain r1 where r1: "drainQueue (Suc (Suc 0)) ?E1 ?s1 = Inr r1"
    "nrBuildsRead r1 = Suc (nrBuildsRead ?s1)" "nrBuildsDone r1 = nrBuildsDone u1"
    by blast
  have z1: "nrBuildsDone ?z1 = 0" "nrBuildsRead ?s1 = 0"
    by (simp_all add: clearRunnable_def release_def goneState_def emptyState_def)
  have g: "\<exists>s'. drainQueue (Suc (Suc 0)) ?E1 ?s1 = Inr s' \<and>
      nrBuildsDone s' = 1 \<and> nrBuildsRead s' = 1"
    using r1 d1 z1 by (intro exI [where x = r1]) simp

  let ?E2 = cachedEnv and ?b2 = "queuedBuild 2 ''/d/cached''"
  let ?s2 = "cachedState\<lparr>newBuilds := [(''/d/cached'', ?b2)]\<rparr>"
  let ?z2 = "(clearRunnable (?s2\<lparr>newBuilds := []\<rparr>))\<lparr>nrAdded := 0\<rparr>"
  let ?i2 = "?z2\<lparr>loaded := loaded ?z2 @ [bid ?b2], nrAdded := Suc (nrAdded ?z2),
    newSteps := [], finishedDrvs := []\<rparr>"
  have nf2: "\<not> finishedInDB ?b2" by (simp add: queuedBuild_def buildOfRow_def)
  have v2: "isValidPath ?E2 (bdrvPath ?b2)"
    by (simp add: cachedEnv_def storeEnv_def queuedBuild_def buildOfRow_def queuedRow_def)
  have "case createStep (Suc 0) ?E2 (bdrvPath ?b2) (Some (bid ?b2)) None ?i2 of
          Inr (None, s) \<Rightarrow> True | _ \<Rightarrow> False"
    by code_simp
  then obtain w2 where
    c2: "createStep (Suc 0) ?E2 (bdrvPath ?b2) (Some (bid ?b2)) None ?i2 = Inr (None, w2)"
    by (auto split: sum.splits option.splits)
  note t2 = createBuild_counters [OF nf2, of ?E2 "Suc 0" ?z2]
  from t2 [THEN conjunct2, THEN conjunct1, rule_format, OF conjI, OF v2 c2]
  obtain b2 u2 where run2: "createBuild (Suc (Suc 0)) ?E2 ?b2 ?z2 = Inr (b2, u2)"
    and d2: "nrBuildsDone u2 = nrBuildsDone ?z2"
    by blast
  have nb2: "newBuilds ?s2 = [(''/d/cached'', ?b2)]" by simp
  from t2 [THEN conjunct2, THEN conjunct2, THEN conjunct2, THEN conjunct2, THEN conjunct2,
      rule_format, OF conjI, OF nb2 run2]
  obtain r2 where r2: "drainQueue (Suc (Suc (Suc 0))) ?E2 ?s2 = Inr r2"
    "nrBuildsRead r2 = Suc (nrBuildsRead ?s2)" "nrBuildsDone r2 = nrBuildsDone u2"
    by blast
  have z2: "nrBuildsDone ?z2 = 0" "nrBuildsRead ?s2 = 0"
    by (simp_all add: clearRunnable_def release_def cachedState_def emptyState_def)
  have c: "\<exists>s'. drainQueue (Suc (Suc (Suc 0))) ?E2 ?s2 = Inr s' \<and>
      nrBuildsDone s' = 0 \<and> nrBuildsRead s' = 1"
    using r2 d2 z2 by (intro exI [where x = r2]) simp

  let ?E3 = armEnv and ?b3 = "queuedBuild 4 ''/d/arm''"
  let ?s3 = "armState\<lparr>newBuilds := [(''/d/arm'', ?b3)]\<rparr>"
  let ?z3 = "(clearRunnable (?s3\<lparr>newBuilds := []\<rparr>))\<lparr>nrAdded := 0\<rparr>"
  let ?i3 = "?z3\<lparr>loaded := loaded ?z3 @ [bid ?b3], nrAdded := Suc (nrAdded ?z3),
    newSteps := [], finishedDrvs := []\<rparr>"
  have nf3: "\<not> finishedInDB ?b3" by (simp add: queuedBuild_def buildOfRow_def)
  have v3: "isValidPath ?E3 (bdrvPath ?b3)"
    by (simp add: armEnv_def storeEnv_def queuedBuild_def buildOfRow_def queuedRow_def)
  have "case createStep (Suc 0) ?E3 (bdrvPath ?b3) (Some (bid ?b3)) None ?i3 of
          Inr (Some root, s) \<Rightarrow>
            root = 0 \<and> newSteps s = [0] \<and> newBuilds s = [] \<and> nrBuildsDone s = 0 \<and>
            map_option drvPath (heap s 0) = Some ''/d/arm''
        | _ \<Rightarrow> False"
    by code_simp
  then obtain w3 x3 where
    c3: "createStep (Suc 0) ?E3 (bdrvPath ?b3) (Some (bid ?b3)) None ?i3 = Inr (Some 0, w3)"
    and o3: "newSteps w3 = [0]" "newBuilds w3 = []" "nrBuildsDone w3 = 0" "heap w3 0 = Some x3"
    by (auto split: sum.splits option.splits)
  have it3: "iterSteps ?E3 (newSteps w3) = [] @ 0 # []"
    by (simp add: iterSteps_def o3)
  have "forEachStep (piggyback (Suc 0) (createBuild (Suc 0) ?E3)) [0] w3 = Inr w3"
    using o3 by (intro forEachStep_piggyback_alive) simp_all
  then have l3: "forEachStep (piggyback (Suc 0) (createBuild (Suc 0) ?E3))
      (iterSteps ?E3 (newSteps w3)) w3 = Inr w3"
    using it3 by simp
  have good3: "\<forall>x \<in> set []. \<exists>t. heap w3 x = Some t \<and> \<not> checkCachedFailure ?E3 t \<and>
      supported ?E3 t"
    by simp
  have "\<not> supported ?E3 x3" by (simp add: supported_def armEnv_def storeEnv_def)
  then have bad3: "checkCachedFailure ?E3 x3 \<or> \<not> supported ?E3 x3" ..
  note t3 = createBuild_counters [OF nf3, of ?E3 "Suc 0" ?z3]
  from t3 [THEN conjunct2, THEN conjunct2, THEN conjunct1, rule_format,
      of 0 w3 w3 "[]" 0 "[]" x3] v3 c3 l3 it3 good3 o3(4) bad3
  obtain b3 u3 where run3: "createBuild (Suc (Suc 0)) ?E3 ?b3 ?z3 = Inr (b3, u3)"
    and d3: "nrBuildsDone u3 = Suc (nrBuildsDone w3)"
    by blast
  have nb3: "newBuilds ?s3 = [(''/d/arm'', ?b3)]" by simp
  from t3 [THEN conjunct2, THEN conjunct2, THEN conjunct2, THEN conjunct2, THEN conjunct2,
      rule_format, OF conjI, OF nb3 run3]
  obtain r3 where r3: "drainQueue (Suc (Suc (Suc 0))) ?E3 ?s3 = Inr r3"
    "nrBuildsRead r3 = Suc (nrBuildsRead ?s3)" "nrBuildsDone r3 = nrBuildsDone u3"
    by blast
  have z3: "nrBuildsRead ?s3 = 0" by (simp add: armState_def emptyState_def)
  have a: "\<exists>s'. drainQueue (Suc (Suc (Suc 0))) ?E3 ?s3 = Inr s' \<and>
      nrBuildsDone s' = 1 \<and> nrBuildsRead s' = 1"
    using r3 d3 z3 o3(3) by (intro exI [where x = r3]) simp
  from nf1 gone g nf2 v2 c nf3 v3 a show ?thesis by (intro conjI)
qed

end
